theory Spec2Isabelle
  imports Main "HOL-Library.Word" "HOL-Library.Signed_Division"
begin

unbundle bit_operations_syntax

section \<open>The hexadecimal codec (base/hexadecimal\_body.hpp)\<close>

subsection \<open>Bytes, addresses and memory\<close>

text \<open>
  A \<^verbatim>\<open>uint8_t\<close> is an 8-bit word.  Both functions work through raw pointers that may
  alias, so memory is an explicit store from addresses to bytes and a pointer is an
  address.  Addresses are mathematical integers: pointer arithmetic never wraps in the
  model.
\<close>

type_synonym byte = "8 word"
type_synonym address = int
type_synonym memory = "address \<Rightarrow> byte"

text \<open>
  The sizes are \<^verbatim>\<open>int64_t\<close>.  They are integers here, and the result of every arithmetic
  operation the source performs on them that can leave the 64-bit range is wrapped to
  two's complement by \<open>int64\<close>.
\<close>

definition int64 :: "int \<Rightarrow> int" where
  "int64 x = signed_take_bit 63 x"

text \<open>The two fatal \<^verbatim>\<open>CHECK\<close>s, named after the messages they log.\<close>

datatype error = BadOverlap | OutputTooSmall

subsection \<open>The lookup tables\<close>

text \<open>
  \<^verbatim>\<open>kByteToHexadecimalDigits\<close>: the string literal of the source, line by line, with the
  terminating NUL of a C string literal.
\<close>

definition kByteToHexadecimalDigits :: string where
  "kByteToHexadecimalDigits =
    ''000102030405060708090A0B0C0D0E0F101112131415161718191A1B1C1D1E1F2021222324'' @
    ''25262728292A2B2C2D2E2F303132333435363738393A3B3C3D3E3F40414243444546474849'' @
    ''4A4B4C4D4E4F505152535455565758595A5B5C5D5E5F606162636465666768696A6B6C6D6E'' @
    ''6F707172737475767778797A7B7C7D7E7F808182838485868788898A8B8C8D8E8F90919293'' @
    ''9495969798999A9B9C9D9E9FA0A1A2A3A4A5A6A7A8A9AAABACADAEAFB0B1B2B3B4B5B6B7B8'' @
    ''B9BABBBCBDBEBFC0C1C2C3C4C5C6C7C8C9CACBCCCDCECFD0D1D2D3D4D5D6D7D8D9DADBDCDD'' @
    ''DEDFE0E1E2E3E4E5E6E7E8E9EAEBECEDEEEFF0F1F2F3F4F5F6F7F8F9FAFBFCFDFEFF'' @
    [CHR 0x00]"

text \<open>The macros \<^verbatim>\<open>SKIP_7\<close>, \<^verbatim>\<open>SKIP_26\<close> and \<^verbatim>\<open>SKIP_48\<close>.\<close>

definition SKIP_7 :: "byte list" where
  "SKIP_7 = [0, 0, 0, 0, 0, 0, 0]"

definition SKIP_26 :: "byte list" where
  "SKIP_26 = SKIP_7 @ SKIP_7 @ SKIP_7 @ [0, 0, 0, 0, 0]"

definition SKIP_48 :: "byte list" where
  "SKIP_48 = SKIP_26 @ SKIP_7 @ SKIP_7 @ SKIP_7 @ [0]"

text \<open>
  \<^verbatim>\<open>kHexadecimalDigitsToNibble[256]\<close>: the initialiser of the source, and zeros for the
  elements of the array that the initialiser does not reach.
\<close>

definition kHexadecimalDigitsToNibble_initializer :: "byte list" where
  "kHexadecimalDigitsToNibble_initializer =
    SKIP_48 @ [0, 1, 2, 3, 4, 5, 6, 7, 8, 9] @
    SKIP_7 @ [0xa, 0xb, 0xc, 0xd, 0xe, 0xf] @
    SKIP_26 @ [0xa, 0xb, 0xc, 0xd, 0xe, 0xf]"

definition kHexadecimalDigitsToNibble :: "byte list" where
  "kHexadecimalDigitsToNibble =
    kHexadecimalDigitsToNibble_initializer @
    replicate (256 - length kHexadecimalDigitsToNibble_initializer) 0"

subsection \<open>HexadecimalEncode\<close>

text \<open>
  \<^verbatim>\<open>memcpy(output, &kByteToHexadecimalDigits[*input << 1], 2)\<close>: the byte read is promoted
  to \<^verbatim>\<open>int\<close>, so the index is twice its unsigned value, at most 510.
\<close>

definition digits_of_byte :: "byte \<Rightarrow> byte list" where
  "digits_of_byte b =
    [of_char (kByteToHexadecimalDigits ! (2 * unat b)),
     of_char (kByteToHexadecimalDigits ! (2 * unat b + 1))]"

fun memcpy :: "memory \<Rightarrow> address \<Rightarrow> byte list \<Rightarrow> memory" where
  "memcpy mem dst [] = mem"
| "memcpy mem dst (b # bs) = memcpy (mem(dst := b)) (dst + 1) bs"

text \<open>
  The loop of \<^verbatim>\<open>HexadecimalEncode\<close>, which runs while \<^verbatim>\<open>input != input_rend\<close> and steps
  \<^verbatim>\<open>input\<close> down by one and \<^verbatim>\<open>output\<close> down by two.  The loop does not return when
  \<^verbatim>\<open>input\<close> starts below \<^verbatim>\<open>input_rend\<close>; not returning is the value \<open>None\<close>.
\<close>

partial_function (option) encode_loop ::
  "memory \<Rightarrow> address \<Rightarrow> address \<Rightarrow> address \<Rightarrow> memory option" where
  "encode_loop mem input output input_rend =
    (if input \<noteq> input_rend
     then encode_loop (memcpy mem output (digits_of_byte (mem input)))
            (input - 1) (output - 2) input_rend
     else Some mem)"

declare encode_loop.simps [code]

text \<open>
  \<^verbatim>\<open>HexadecimalEncode\<close>.  A failed \<^verbatim>\<open>CHECK\<close> is \<open>Some (Inl e)\<close>, a normal return with the
  memory it leaves is \<open>Some (Inr mem')\<close>.
\<close>

definition HexadecimalEncode ::
  "memory \<Rightarrow> address \<Rightarrow> int \<Rightarrow> address \<Rightarrow> int \<Rightarrow> (error + memory) option" where
  "HexadecimalEncode mem input input_size output output_size =
    (if \<not> (input \<le> output + 1 \<or> output + int64 (push_bit 1 input_size) \<le> input)
     then Some (Inl BadOverlap)
     else if \<not> (output_size \<ge> int64 (push_bit 1 input_size))
     then Some (Inl OutputTooSmall)
     else
       let output' = output + int64 (push_bit 1 (int64 (input_size - 1)));
           input' = input + input_size - 1
       in map_option Inr (encode_loop mem input' output' (input' - input_size)))"

subsection \<open>HexadecimalDecode\<close>

text \<open>
  \<^verbatim>\<open>(kHexadecimalDigitsToNibble[*input] << 4) | kHexadecimalDigitsToNibble[*(input + 1)]\<close>:
  both table entries are promoted to \<^verbatim>\<open>int\<close> (32 bits), and the result is converted
  back to \<^verbatim>\<open>uint8_t\<close> by the assignment.
\<close>

definition byte_of_digits :: "byte \<Rightarrow> byte \<Rightarrow> byte" where
  "byte_of_digits c1 c2 =
    ucast ((push_bit 4 (ucast (kHexadecimalDigitsToNibble ! unat c1) :: 32 word)) OR
           (ucast (kHexadecimalDigitsToNibble ! unat c2) :: 32 word))"

text \<open>
  The loop of \<^verbatim>\<open>HexadecimalDecode\<close>, which runs while \<^verbatim>\<open>input != input_end\<close> and steps
  \<^verbatim>\<open>input\<close> up by two and \<^verbatim>\<open>output\<close> up by one.
\<close>

partial_function (option) decode_loop ::
  "memory \<Rightarrow> address \<Rightarrow> address \<Rightarrow> address \<Rightarrow> memory option" where
  "decode_loop mem input output input_end =
    (if input \<noteq> input_end
     then decode_loop (mem(output := byte_of_digits (mem input) (mem (input + 1))))
            (input + 2) (output + 1) input_end
     else Some mem)"

declare decode_loop.simps [code]

text \<open>
  \<^verbatim>\<open>HexadecimalDecode\<close>.  \<^verbatim>\<open>input_size &= ~1\<close> clears the lowest bit; \<^verbatim>\<open>input_size / 2\<close> is
  the truncating division of C++.
\<close>

definition HexadecimalDecode ::
  "memory \<Rightarrow> address \<Rightarrow> int \<Rightarrow> address \<Rightarrow> int \<Rightarrow> (error + memory) option" where
  "HexadecimalDecode mem input input_size0 output output_size =
    (let input_size = input_size0 AND NOT 1
     in if \<not> (output \<le> input + 1 \<or> input + input_size \<le> output)
        then Some (Inl BadOverlap)
        else if \<not> (output_size \<ge> input_size sdiv 2)
        then Some (Inl OutputTooSmall)
        else map_option Inr (decode_loop mem input output (input + input_size)))"

subsection \<open>Reading a buffer\<close>

text \<open>The \<open>n\<close> bytes of a buffer that starts at address \<open>a\<close>.\<close>

definition bytes_at :: "memory \<Rightarrow> address \<Rightarrow> nat \<Rightarrow> byte list" where
  "bytes_at mem a n = map (\<lambda>i. mem (a + int i)) [0..<n]"

subsection \<open>Reference functions for the statements\<close>

text \<open>
  The definitions of this subsection are not code of the two functions.  They are the
  notions in which the statements say what the code computes: what a hexadecimal digit
  is, and the memory that a call leaves.
\<close>

text \<open>A memory that holds 0 everywhere, to build the memories of the examples from.\<close>

definition blank :: memory where
  "blank = (\<lambda>a. 0)"

text \<open>The characters \<open>0\<close> to \<open>9\<close>, \<open>A\<close> to \<open>F\<close> and \<open>a\<close> to \<open>f\<close>.\<close>

definition is_hexadecimal_digit :: "byte \<Rightarrow> bool" where
  "is_hexadecimal_digit c \<longleftrightarrow>
    (0x30 \<le> c \<and> c \<le> 0x39) \<or> (0x41 \<le> c \<and> c \<le> 0x46) \<or> (0x61 \<le> c \<and> c \<le> 0x66)"

text \<open>The capital of a letter \<open>a\<close> to \<open>f\<close>; any other byte is left as it is.\<close>

definition uppercase :: "byte \<Rightarrow> byte" where
  "uppercase c = (if 0x61 \<le> c \<and> c \<le> 0x66 then c - 0x20 else c)"

text \<open>The uppercase hexadecimal digit of a value below 16.\<close>

definition hexadecimal_digit :: "nat \<Rightarrow> byte" where
  "hexadecimal_digit d = of_char (''0123456789ABCDEF'' ! d)"

text \<open>The value of a hexadecimal digit given by its character code, and 0 for any other code.\<close>

definition nibble_of_char :: "nat \<Rightarrow> byte" where
  "nibble_of_char n =
    (if 48 \<le> n \<and> n \<le> 57 then of_nat (n - 48)
     else if 65 \<le> n \<and> n \<le> 70 then of_nat (n - 55)
     else if 97 \<le> n \<and> n \<le> 102 then of_nat (n - 87) else 0)"

text \<open>
  The memory after the \<open>k\<close> iterations of the loop of \<^verbatim>\<open>HexadecimalEncode\<close>, in closed form:
  the byte at \<open>output + 2 * i\<close> and the next are the digits of the byte that was at
  \<open>input + i\<close>.
\<close>

definition encoded_memory :: "memory \<Rightarrow> address \<Rightarrow> address \<Rightarrow> nat \<Rightarrow> memory" where
  "encoded_memory mem input output k =
    (\<lambda>a. if output \<le> a \<and> a < output + 2 * int k
         then digits_of_byte (mem (input + (a - output) div 2)) ! nat ((a - output) mod 2)
         else mem a)"

text \<open>
  The memory after the \<open>k\<close> iterations of the loop of \<^verbatim>\<open>HexadecimalDecode\<close>, in closed form:
  the byte at \<open>output + i\<close> is the one denoted by the two characters that were at
  \<open>input + 2 * i\<close> and after.
\<close>

definition decoded_memory :: "memory \<Rightarrow> address \<Rightarrow> address \<Rightarrow> nat \<Rightarrow> memory" where
  "decoded_memory mem input output k =
    (\<lambda>a. if output \<le> a \<and> a < output + int k
         then byte_of_digits (mem (input + 2 * (a - output))) (mem (input + 2 * (a - output) + 1))
         else mem a)"

text \<open>
  The two uppercase hexadecimal digits of each byte, most significant first.
\<close>

definition uppercase_hexadecimal :: "byte list \<Rightarrow> byte list" where
  "uppercase_hexadecimal bs =
    concat (map (\<lambda>b. [hexadecimal_digit (unat b div 16), hexadecimal_digit (unat b mod 16)]) bs)"

text \<open>
  The bytes that the pairs of characters of a buffer denote; an unpaired last character is dropped.
\<close>

fun decode_pairs :: "byte list \<Rightarrow> byte list" where
  "decode_pairs (c1 # c2 # cs) = byte_of_digits c1 c2 # decode_pairs cs"
| "decode_pairs cs = []"

text \<open>
  The outcome of a call, with the memory it leaves replaced by the \<open>k\<close> bytes at \<open>a\<close>.
\<close>

definition bytes_of_result ::
  "(error + memory) option \<Rightarrow> address \<Rightarrow> nat \<Rightarrow> (error + byte list) option" where
  "bytes_of_result r a k = map_option (map_sum id (\<lambda>mem. bytes_at mem a k)) r"

text \<open>
  The placements that the specification permits for \<^verbatim>\<open>HexadecimalEncode\<close>, in its words: the
  output may alias the input if \<^verbatim>\<open>output\<close> starts at or after \<^verbatim>\<open>input+1\<close>, or the ranges are
  disjoint.
\<close>

definition encode_overlap_permitted_by_spec :: "address \<Rightarrow> int \<Rightarrow> address \<Rightarrow> bool" where
  "encode_overlap_permitted_by_spec input input_size output \<longleftrightarrow>
    input + 1 \<le> output \<or>
    (input + input_size \<le> output \<or> output + 2 * input_size \<le> input)"

section \<open>The push deserializer (base/push\_deserializer.hpp)\<close>

text \<open>
  The header declares the class \<^verbatim>\<open>PushDeserializer\<close> with its members; the file with the
  bodies of its methods, \<^verbatim>\<open>base/push_deserializer_body.hpp\<close>, is not among the sources.
  The bodies are modelled from the specification, and each definition says so.
\<close>

subsection \<open>The declared state\<close>

text \<open>
  A \<^verbatim>\<open>Bytes\<close> object is a pointer with a size; here it is the bytes it designates.
\<close>

type_synonym Bytes = "byte list"

text \<open>
  The members \<^verbatim>\<open>chunk_size_\<close>, \<^verbatim>\<open>number_of_chunks_\<close> and \<^verbatim>\<open>queue_\<close> of the class (the
  trailing underscore is not part of a name here).  The two constants are positive by
  the contract of the constructor.  The mutex and the two condition variables have no
  field: waiting on them is a step that cannot be taken, see \<open>Put\<close> and \<open>Get\<close>.
\<close>

record PushDeserializer =
  chunk_size :: nat
  number_of_chunks :: nat
  queue :: "Bytes list"

text \<open>
  Modelled from the spec: the body of the constructor \<^verbatim>\<open>PushDeserializer\<close>, which is not
  among the sources.  A pipeline is created with its two constants and an empty queue.
\<close>

definition new_PushDeserializer :: "nat \<Rightarrow> nat \<Rightarrow> PushDeserializer" where
  "new_PushDeserializer cs n =
    \<lparr>chunk_size = cs, number_of_chunks = n, queue = []\<rparr>"

subsection \<open>The bounded queue\<close>

text \<open>
  Modelled from the spec: the operation \<^verbatim>\<open>Put\<close> of the bounded chunk queue, whose code is
  in the missing bodies of the methods.  It blocks while the length of the queue equals
  the capacity, then appends the chunk.  Blocking is the value \<open>None\<close>: the thread has no
  step to take in this state.
\<close>

definition Put :: "PushDeserializer \<Rightarrow> Bytes \<Rightarrow> PushDeserializer option" where
  "Put d chunk =
    (if length (queue d) = number_of_chunks d then None
     else Some (d\<lparr>queue := queue d @ [chunk]\<rparr>))"

text \<open>
  Modelled from the spec: the operation \<^verbatim>\<open>Get\<close> of the bounded chunk queue, whose code is
  in the missing bodies of the methods.  It blocks while the queue is empty, then removes
  and returns the front chunk.
\<close>

definition Get :: "PushDeserializer \<Rightarrow> (Bytes \<times> PushDeserializer) option" where
  "Get d =
    (case queue d of
       [] \<Rightarrow> None
     | chunk # rest \<Rightarrow> Some (chunk, d\<lparr>queue := rest\<rparr>))"

subsection \<open>Push and Pull\<close>

text \<open>
  Modelled from the spec: the slicing done by the missing body of
  \<^verbatim>\<open>PushDeserializer::Push\<close>.  The bytes are split, in order, into pieces no larger than
  the chunk size: \<open>0..9\<close> with chunk size 4 gives \<open>[0,1,2,3]\<close>, \<open>[4,5,6,7]\<close>, \<open>[8,9]\<close>.
  Zero-length bytes give the one chunk of size 0, and no other input gives an empty
  chunk.  A chunk size of 0, which the contract of the constructor excludes, leaves the
  bytes whole, so that the function is total.
\<close>

function pieces :: "nat \<Rightarrow> Bytes \<Rightarrow> Bytes list" where
  "pieces cs bytes =
    (if cs = 0 \<or> length bytes \<le> cs then [bytes]
     else take cs bytes # pieces cs (drop cs bytes))"
  by pat_completeness auto
termination
  by (relation "measure (\<lambda>(cs, bytes). length bytes)") auto

declare pieces.simps [simp del]

text \<open>
  Modelled from the spec: the fatal assertion that the spec gives for a \<^verbatim>\<open>Push\<close> after the
  end-of-stream sentinel; no body of the class is among the sources.
\<close>

datatype failure = PushAfterEndOfInput

text \<open>
  A pipeline at work has two threads, the caller's and the background thread that
  decodes, and the queue between them.  Its state is the deserializer object together
  with what each thread holds: the pieces of the \<^verbatim>\<open>Push\<close> in progress that are not
  enqueued yet, and whether the caller has pushed zero-length bytes.  Three more fields
  record what has happened, for the statements: the arguments of the calls of
  \<^verbatim>\<open>Push\<close>, the chunks enqueued and the chunks that \<^verbatim>\<open>Pull\<close> has returned, each in
  order.
\<close>

record pipeline =
  deserializer :: PushDeserializer
  pushing :: "Bytes list"
  end_of_input :: bool
  pushed :: "Bytes list"
  enqueued :: "Bytes list"
  pulled :: "Bytes list"

text \<open>
  Modelled from the spec: the pipeline after the constructor and \<^verbatim>\<open>Start\<close>, whose bodies
  are not among the sources.  Nothing has been pushed or pulled.
\<close>

definition start :: "nat \<Rightarrow> nat \<Rightarrow> pipeline" where
  "start cs n =
    \<lparr>deserializer = new_PushDeserializer cs n,
     pushing = [], end_of_input = False, pushed = [], enqueued = [], pulled = []\<rparr>"

text \<open>
  Modelled from the spec: the entry of the missing body of \<^verbatim>\<open>PushDeserializer::Push\<close>.
  A call after zero-length bytes were pushed is a contract violation and fails; any
  other call slices its bytes, and zero-length bytes are the end of the input.
\<close>

definition Push :: "pipeline \<Rightarrow> Bytes \<Rightarrow> failure + pipeline" where
  "Push s bytes =
    (if end_of_input s then Inl PushAfterEndOfInput
     else Inr (s\<lparr>pushing := pieces (chunk_size (deserializer s)) bytes,
                end_of_input := (bytes = []),
                pushed := pushed s @ [bytes]\<rparr>))"

text \<open>
  Modelled from the spec: one turn of the loop of the missing body of
  \<^verbatim>\<open>PushDeserializer::Push\<close>, which enqueues the next piece with \<open>Put\<close> and blocks while
  the queue is full.
\<close>

definition Push_enqueue :: "pipeline \<Rightarrow> pipeline option" where
  "Push_enqueue s =
    (case pushing s of
       [] \<Rightarrow> None
     | chunk # rest \<Rightarrow>
         (case Put (deserializer s) chunk of
            None \<Rightarrow> None
          | Some d \<Rightarrow> Some (s\<lparr>deserializer := d, pushing := rest,
                              enqueued := enqueued s @ [chunk]\<rparr>)))"

text \<open>
  Modelled from the spec: the end of the stream on the decoding side, in the missing
  bodies of \<^verbatim>\<open>Pull\<close> and of the stream that calls it.  The last chunk that \<^verbatim>\<open>Pull\<close>
  returned has size 0; the loop of the background thread has ended and calls \<^verbatim>\<open>Pull\<close> no
  more.
\<close>

definition end_of_stream :: "pipeline \<Rightarrow> bool" where
  "end_of_stream s \<longleftrightarrow> pulled s \<noteq> [] \<and> last (pulled s) = []"

text \<open>
  Modelled from the spec: the missing body of \<^verbatim>\<open>PushDeserializer::Pull\<close>, called by the
  background thread while its loop runs.  It blocks on \<open>Get\<close> and returns the chunk
  obtained.
\<close>

definition Pull :: "pipeline \<Rightarrow> (Bytes \<times> pipeline) option" where
  "Pull s =
    (if end_of_stream s then None
     else case Get (deserializer s) of
            None \<Rightarrow> None
          | Some (chunk, d) \<Rightarrow> Some (chunk, s\<lparr>deserializer := d, pulled := pulled s @ [chunk]\<rparr>))"

subsection \<open>Schedules of the two threads\<close>

text \<open>
  Modelled from the spec: the two threads of a pipeline, which the missing bodies of
  \<^verbatim>\<open>Start\<close>, \<^verbatim>\<open>Push\<close> and \<^verbatim>\<open>Pull\<close> run.  The caller's thread calls \<^verbatim>\<open>Push\<close> when its
  previous call has returned, and enqueues the pieces one at a time; the background
  thread calls \<^verbatim>\<open>Pull\<close>.  A step that a thread cannot take in a state (it is blocked, the
  call would break the contract, or the thread is elsewhere) is \<open>None\<close>.
\<close>

datatype action = CallPush Bytes | Enqueue | CallPull

fun step :: "pipeline \<Rightarrow> action \<Rightarrow> pipeline option" where
  "step s (CallPush bytes) =
    (if pushing s \<noteq> [] then None
     else case Push s bytes of Inl failure \<Rightarrow> None | Inr s' \<Rightarrow> Some s')"
| "step s Enqueue = Push_enqueue s"
| "step s CallPull = map_option snd (Pull s)"

text \<open>
  Modelled from the spec: an interleaving of the steps of the two threads, for the same
  missing bodies.  The reachable states of a pipeline are the results of \<open>run\<close> from
  \<open>start\<close>.
\<close>

fun run :: "pipeline \<Rightarrow> action list \<Rightarrow> pipeline option" where
  "run s [] = Some s"
| "run s (a # as) = (case step s a of None \<Rightarrow> None | Some s' \<Rightarrow> run s' as)"

subsection \<open>Notions for the statements\<close>

text \<open>All the chunks of a pipeline, from the oldest to the newest.\<close>

definition in_flight :: "pipeline \<Rightarrow> Bytes list" where
  "in_flight s = pulled s @ queue (deserializer s) @ pushing s"

text \<open>Neither thread can take a step.\<close>

definition quiescent :: "pipeline \<Rightarrow> bool" where
  "quiescent s \<longleftrightarrow> Push_enqueue s = None \<and> Pull s = None"

text \<open>The steps that the two threads can still take once the input has ended.\<close>

definition remaining :: "pipeline \<Rightarrow> nat" where
  "remaining s = 2 * length (pushing s) + length (queue (deserializer s))"

text \<open>The bounds on the queue and on the chunks.\<close>

definition bounded :: "nat \<Rightarrow> nat \<Rightarrow> pipeline \<Rightarrow> bool" where
  "bounded cs n s \<longleftrightarrow>
    chunk_size (deserializer s) = cs \<and> number_of_chunks (deserializer s) = n \<and>
    length (queue (deserializer s)) \<le> n \<and>
    (\<forall>c \<in> set (queue (deserializer s) @ pushing s). length c \<le> cs)"

text \<open>
  The chunks pulled and the chunks in the queue are the chunks enqueued; these and the
  pieces still to enqueue are the pieces of the bytes pushed.
\<close>

definition fifo :: "pipeline \<Rightarrow> bool" where
  "fifo s \<longleftrightarrow>
    pulled s @ queue (deserializer s) = enqueued s \<and>
    enqueued s @ pushing s = concat (map (pieces (chunk_size (deserializer s))) (pushed s))"

text \<open>
  Only the newest chunk of a pipeline can have size 0, and it has exactly when the input
  has ended.
\<close>

definition sentinel_last :: "nat \<Rightarrow> pipeline \<Rightarrow> bool" where
  "sentinel_last n s \<longleftrightarrow>
    number_of_chunks (deserializer s) = n \<and>
    (\<forall>c \<in> set (butlast (in_flight s)). c \<noteq> []) \<and>
    (end_of_input s \<longleftrightarrow> in_flight s \<noteq> [] \<and> last (in_flight s) = [])"

section \<open>Properties of the hexadecimal codec\<close>

subsection \<open>The loops\<close>

lemma encode_loop_encoded:
  "input \<le> output + 1 \<or> output + 2 * int k \<le> input \<Longrightarrow>
   encode_loop mem (input + int k - 1) (output + 2 * int k - 2) (input - 1) =
     Some (encoded_memory mem input output k)"
proof (induction k arbitrary: mem)
  case 0
  show ?case
    by (subst encode_loop.simps) (auto simp: encoded_memory_def fun_eq_iff)
next
  case (Suc k)
  let ?b = "mem (input + int k)"
  let ?mem1 = "memcpy mem (output + 2 * int k) (digits_of_byte ?b)"
  have geo: "input \<le> output + 1 \<or> output + 2 * int k \<le> input"
    using Suc.prems by auto
  have mem1: "?mem1 a = (if a = output + 2 * int k then digits_of_byte ?b ! 0
                         else if a = output + 2 * int k + 1 then digits_of_byte ?b ! 1
                         else mem a)" for a
    by (simp add: digits_of_byte_def)
  have same: "encoded_memory ?mem1 input output k = encoded_memory mem input output (Suc k)"
  proof (rule ext)
    fix a
    show "encoded_memory ?mem1 input output k a = encoded_memory mem input output (Suc k) a"
    proof (cases "output \<le> a \<and> a < output + 2 * int k")
      case True
      then have j: "0 \<le> (a - output) div 2" "(a - output) div 2 < int k"
        by auto
      have "input + (a - output) div 2 \<noteq> output + 2 * int k"
           "input + (a - output) div 2 \<noteq> output + 2 * int k + 1"
        using Suc.prems j by auto
      then have "?mem1 (input + (a - output) div 2) = mem (input + (a - output) div 2)"
        by (simp add: mem1)
      with True show ?thesis
        by (simp add: encoded_memory_def)
    next
      case False
      have "a = output + 2 * int k \<Longrightarrow> (a - output) div 2 = int k \<and> (a - output) mod 2 = 0"
        by simp
      moreover have "a = output + 2 * int k + 1 \<Longrightarrow> (a - output) div 2 = int k \<and> (a - output) mod 2 = 1"
        by simp
      ultimately show ?thesis
        using False by (auto simp: encoded_memory_def mem1)
    qed
  qed
  have "encode_loop mem (input + int (Suc k) - 1) (output + 2 * int (Suc k) - 2) (input - 1) =
        encode_loop ?mem1 (input + int k - 1) (output + 2 * int k - 2) (input - 1)"
    by (subst encode_loop.simps) (simp add: algebra_simps)
  also have "\<dots> = Some (encoded_memory ?mem1 input output k)"
    by (rule Suc.IH [OF geo])
  finally show ?case
    by (simp only: same)
qed

lemma decode_loop_decoded:
  "output \<le> input + 1 \<or> input + 2 * int k \<le> output \<Longrightarrow>
   decode_loop mem input output (input + 2 * int k) =
     Some (decoded_memory mem input output k)"
proof (induction k arbitrary: mem input "output")
  case 0
  show ?case
    by (subst decode_loop.simps) (auto simp: decoded_memory_def fun_eq_iff)
next
  case (Suc k)
  let ?mem1 = "mem(output := byte_of_digits (mem input) (mem (input + 1)))"
  have geo: "output + 1 \<le> (input + 2) + 1 \<or> (input + 2) + 2 * int k \<le> output + 1"
    using Suc.prems by auto
  have same: "decoded_memory ?mem1 (input + 2) (output + 1) k =
              decoded_memory mem input output (Suc k)"
  proof (rule ext)
    fix a
    show "decoded_memory ?mem1 (input + 2) (output + 1) k a =
          decoded_memory mem input output (Suc k) a"
    proof (cases "output + 1 \<le> a \<and> a < output + 1 + int k")
      case True
      then have "input + 2 + 2 * (a - (output + 1)) \<noteq> output"
                "input + 2 + 2 * (a - (output + 1)) + 1 \<noteq> output"
        using Suc.prems by auto
      with True show ?thesis
        by (simp add: decoded_memory_def algebra_simps)
    next
      case False
      then show ?thesis
        by (auto simp: decoded_memory_def)
    qed
  qed
  have "decode_loop mem input output (input + 2 * int (Suc k)) =
        decode_loop ?mem1 (input + 2) (output + 1) ((input + 2) + 2 * int k)"
    by (subst decode_loop.simps) (simp add: algebra_simps)
  also have "\<dots> = Some (decoded_memory ?mem1 (input + 2) (output + 1) k)"
    by (rule Suc.IH [OF geo])
  finally show ?case
    by (simp only: same)
qed

lemma int64_id: "- (2 ^ 63) \<le> x \<Longrightarrow> x < 2 ^ 63 \<Longrightarrow> int64 x = x"
  unfolding int64_def by (simp add: signed_take_bit_int_eq_self)

lemma and_not_1: "(n::int) AND NOT 1 = 2 * (n div 2)"
proof (rule bit_eqI)
  fix i
  have l: "bit (n AND NOT 1) i \<longleftrightarrow> bit n i \<and> i \<noteq> 0"
    unfolding bit_and_iff bit_not_iff bit_1_iff by simp
  have r: "bit (2 * (n div 2)) i \<longleftrightarrow> bit n i \<and> i \<noteq> 0"
    by (cases i) (simp_all add: bit_double_iff bit_Suc)
  show "bit (n AND NOT 1) i = bit (2 * (n div 2)) i"
    unfolding l r ..
qed

lemma sdiv_2: "0 \<le> (n::int) \<Longrightarrow> n sdiv 2 = n div 2"
  by (cases "n = 0") (auto simp: signed_divide_int_def sgn_if)

lemma HexadecimalDecode_eq:
  assumes "0 \<le> n"
  shows "HexadecimalDecode mem input n output output_size =
    (if \<not> (output \<le> input + 1 \<or> input + 2 * (n div 2) \<le> output) then Some (Inl BadOverlap)
     else if output_size < n div 2 then Some (Inl OutputTooSmall)
     else Some (Inr (decoded_memory mem input output (nat (n div 2)))))"
proof -
  have k: "2 * (n div 2) = 2 * int (nat (n div 2))" "0 \<le> 2 * (n div 2)"
    using assms by auto
  have sd: "(2 * (n div 2)) sdiv 2 = n div 2"
    using sdiv_2 [of "2 * (n div 2)"] assms by simp
  have loop: "output \<le> input + 1 \<or> input + 2 * (n div 2) \<le> output \<Longrightarrow>
      decode_loop mem input output (input + 2 * (n div 2)) =
      Some (decoded_memory mem input output (nat (n div 2)))"
    using decode_loop_decoded [of "output" input "nat (n div 2)" mem] k by simp
  show ?thesis
    unfolding HexadecimalDecode_def Let_def and_not_1 sd
    using loop by (auto simp: not_le)
qed

lemma HexadecimalEncode_eq:
  assumes "0 \<le> n" "n < 2 ^ 62"
  shows "HexadecimalEncode mem input n output output_size =
    (if \<not> (input \<le> output + 1 \<or> output + 2 * n \<le> input) then Some (Inl BadOverlap)
     else if output_size < 2 * n then Some (Inl OutputTooSmall)
     else Some (Inr (encoded_memory mem input output (nat n))))"
proof -
  have a: "int64 (push_bit 1 n) = 2 * n"
    using assms by (simp add: int64_id push_bit_eq_mult)
  have "int64 (n - 1) = n - 1"
    using assms by (simp add: int64_id)
  then have b: "int64 (push_bit 1 (int64 (n - 1))) = 2 * n - 2"
    using assms by (simp add: int64_id push_bit_eq_mult)
  have loop: "input \<le> output + 1 \<or> output + 2 * n \<le> input \<Longrightarrow>
      encode_loop mem (input + n - 1) (output + (2 * n - 2)) (input + n - 1 - n) =
      Some (encoded_memory mem input output (nat n))"
    using encode_loop_encoded [of input "output" "nat n" mem] assms
    by (simp add: algebra_simps)
  show ?thesis
    unfolding HexadecimalEncode_def Let_def a b
    using loop by (auto simp: not_le)
qed

subsection \<open>The tables\<close>

lemma digits_table:
  "map of_char kByteToHexadecimalDigits =
   concat (map (\<lambda>n. [hexadecimal_digit (n div 16), hexadecimal_digit (n mod 16)]) [0..<256]) @
   [0::byte]"
  unfolding kByteToHexadecimalDigits_def hexadecimal_digit_def
  by code_simp

lemma nibble_table:
  "kHexadecimalDigitsToNibble = map nibble_of_char [0..<256]"
  unfolding kHexadecimalDigitsToNibble_def kHexadecimalDigitsToNibble_initializer_def
    SKIP_48_def SKIP_26_def SKIP_7_def nibble_of_char_def
  by code_simp

lemma length_concat_pairs: "length (concat (map (\<lambda>n. [f n, g n]) [0..<k])) = 2 * k"
  by (induction k) simp_all

lemma nth_concat_pairs:
  "i < k \<Longrightarrow>
   (concat (map (\<lambda>n. [f n, g n]) [0..<k]) @ ys) ! (2 * i) = f i \<and>
   (concat (map (\<lambda>n. [f n, g n]) [0..<k]) @ ys) ! (2 * i + 1) = g i"
proof (induction k)
  case 0
  then show ?case by simp
next
  case (Suc k)
  show ?case
  proof (cases "i < k")
    case True
    then have "2 * i < 2 * k" "2 * i + 1 < 2 * k" by auto
    with Suc.IH [OF True] show ?thesis
      by (simp add: nth_append length_concat_pairs)
  next
    case False
    with Suc.prems have "i = k" by simp
    then show ?thesis
      by (simp add: nth_append length_concat_pairs)
  qed
qed

lemma length_kByteToHexadecimalDigits: "length kByteToHexadecimalDigits = 513"
proof -
  have "length (map (of_char :: char \<Rightarrow> byte) kByteToHexadecimalDigits) = 513"
    unfolding digits_table by (simp add: length_concat_pairs)
  then show ?thesis by simp
qed

lemma digits_of_byte_eq:
  "digits_of_byte b = [hexadecimal_digit (unat b div 16), hexadecimal_digit (unat b mod 16)]"
proof -
  have lt: "unat b < 256"
    using unsigned_less [of b] by simp
  then have i: "2 * unat b < length kByteToHexadecimalDigits"
               "2 * unat b + 1 < length kByteToHexadecimalDigits"
    by (simp_all add: length_kByteToHexadecimalDigits)
  have "(of_char (kByteToHexadecimalDigits ! (2 * unat b)) :: byte) =
        map of_char kByteToHexadecimalDigits ! (2 * unat b)"
       "(of_char (kByteToHexadecimalDigits ! (2 * unat b + 1)) :: byte) =
        map of_char kByteToHexadecimalDigits ! (2 * unat b + 1)"
    using i by simp_all
  then show ?thesis
    unfolding digits_of_byte_def digits_table
    using nth_concat_pairs [OF lt] by simp
qed

lemma nibble_lookup: "kHexadecimalDigitsToNibble ! unat (c :: byte) = nibble_of_char (unat c)"
proof -
  have "unat c < 256"
    using unsigned_less [of c] by simp
  then show ?thesis
    unfolding nibble_table by simp
qed

lemma less_16_cases:
  "(d :: nat) < 16 \<Longrightarrow> d = 0 \<or> d = 1 \<or> d = 2 \<or> d = 3 \<or> d = 4 \<or> d = 5 \<or> d = 6 \<or> d = 7 \<or>
    d = 8 \<or> d = 9 \<or> d = 10 \<or> d = 11 \<or> d = 12 \<or> d = 13 \<or> d = 14 \<or> d = 15"
  by arith

lemma nibble_of_hexadecimal_digit:
  assumes "d < 16"
  shows "nibble_of_char (unat (hexadecimal_digit d)) = of_nat d"
  using less_16_cases [OF assms]
  by (elim disjE) (simp_all add: hexadecimal_digit_def nibble_of_char_def)

lemma nibbles_of_byte:
  "(ucast ((push_bit 4 (ucast (drop_bit 4 b) :: 32 word)) OR
     (ucast (take_bit 4 b) :: 32 word)) :: byte) = (b :: byte)"
  by (rule bit_word_eqI) (auto simp: bit_simps)

lemma of_nat_div_16: "(of_nat (unat (b :: byte) div 16) :: byte) = drop_bit 4 b"
proof -
  have "unat (drop_bit 4 b) = unat b div 16"
    by (simp add: unat_drop_bit_eq drop_bit_eq_div unat_div)
  then show ?thesis
    by (metis of_nat_unat ucast_id)
qed

lemma of_nat_mod_16: "(of_nat (unat (b :: byte) mod 16) :: byte) = take_bit 4 b"
proof -
  have "unat (take_bit 4 b) = unat b mod 16"
    by (simp add: unsigned_take_bit_eq take_bit_eq_mod unat_mod)
  then show ?thesis
    by (metis of_nat_unat ucast_id)
qed

lemma byte_of_digits_of_byte:
  "byte_of_digits (hexadecimal_digit (unat b div 16)) (hexadecimal_digit (unat b mod 16)) = b"
proof -
  have "unat b < 256"
    using unsigned_less [of b] by simp
  then have h: "unat b div 16 < 16" and l: "unat b mod 16 < 16"
    by simp_all
  show ?thesis
    unfolding byte_of_digits_def nibble_lookup
      nibble_of_hexadecimal_digit [OF h] nibble_of_hexadecimal_digit [OF l]
      of_nat_div_16 of_nat_mod_16
    by (rule nibbles_of_byte)
qed

subsection \<open>Buffers\<close>

lemma length_bytes_at: "length (bytes_at mem a k) = k"
  by (simp add: bytes_at_def)

lemma nth_bytes_at: "i < k \<Longrightarrow> bytes_at mem a k ! i = mem (a + int i)"
  by (simp add: bytes_at_def)

lemma length_digits_of_byte: "length (digits_of_byte b) = 2"
  by (simp add: digits_of_byte_def)

lemma length_concat_digits: "length (concat (map digits_of_byte bs)) = 2 * length bs"
  by (induction bs) (simp_all add: length_digits_of_byte)

lemma nth_concat_digits:
  "i < 2 * length bs \<Longrightarrow>
   concat (map digits_of_byte bs) ! i = digits_of_byte (bs ! (i div 2)) ! (i mod 2)"
proof (induction bs arbitrary: i)
  case Nil
  then show ?case by simp
next
  case (Cons b bs)
  show ?case
  proof (cases "i < 2")
    case True
    then show ?thesis
      by (simp add: nth_append length_digits_of_byte)
  next
    case False
    then obtain j where j: "i = j + 2"
      by (metis add.commute le_Suc_ex not_less)
    with Cons.prems have "j < 2 * length bs" by simp
    from Cons.IH [OF this] show ?thesis
      by (simp add: j nth_append length_digits_of_byte)
  qed
qed

lemma bytes_at_encoded_memory:
  "bytes_at (encoded_memory mem input output k) output (2 * k) =
   concat (map digits_of_byte (bytes_at mem input k))"
proof (rule nth_equalityI)
  show "length (bytes_at (encoded_memory mem input output k) output (2 * k)) =
        length (concat (map digits_of_byte (bytes_at mem input k)))"
    by (simp add: length_bytes_at length_concat_digits)
next
  fix i
  assume "i < length (bytes_at (encoded_memory mem input output k) output (2 * k))"
  then have i: "i < 2 * k"
    by (simp add: length_bytes_at)
  then have d: "i div 2 < k" by auto
  have "bytes_at (encoded_memory mem input output k) output (2 * k) ! i =
        digits_of_byte (mem (input + int (i div 2))) ! (i mod 2)"
    using i by (simp add: nth_bytes_at encoded_memory_def zdiv_int zmod_int nat_mod_distrib)
  also have "\<dots> = concat (map digits_of_byte (bytes_at mem input k)) ! i"
    using i d by (simp add: nth_concat_digits length_bytes_at nth_bytes_at)
  finally show "bytes_at (encoded_memory mem input output k) output (2 * k) ! i =
                concat (map digits_of_byte (bytes_at mem input k)) ! i" .
qed

lemma encoded_memory_outside:
  "a < output \<or> output + 2 * int k \<le> a \<Longrightarrow> encoded_memory mem input output k a = mem a"
  by (auto simp: encoded_memory_def)

lemma decoded_memory_outside:
  "a < output \<or> output + int k \<le> a \<Longrightarrow> decoded_memory mem input output k a = mem a"
  by (auto simp: decoded_memory_def)

lemma decoded_memory_inside:
  "i < k \<Longrightarrow> decoded_memory mem input output k (output + int i) =
     byte_of_digits (mem (input + 2 * int i)) (mem (input + 2 * int i + 1))"
  by (simp add: decoded_memory_def)

lemma encoded_memory_inside:
  assumes "i < k"
  shows "encoded_memory mem input output k (output + 2 * int i) =
           hexadecimal_digit (unat (mem (input + int i)) div 16)"
    and "encoded_memory mem input output k (output + 2 * int i + 1) =
           hexadecimal_digit (unat (mem (input + int i)) mod 16)"
  using assms by (simp_all add: encoded_memory_def digits_of_byte_eq)

lemma bytes_at_decoded_encoded:
  "bytes_at (decoded_memory (encoded_memory mem input output k) output decoded k) decoded k =
   bytes_at mem input k"
proof (rule nth_equalityI)
  show "length (bytes_at (decoded_memory (encoded_memory mem input output k) output decoded k)
          decoded k) = length (bytes_at mem input k)"
    by (simp add: length_bytes_at)
next
  fix i
  assume "i < length (bytes_at (decoded_memory (encoded_memory mem input output k) output
            decoded k) decoded k)"
  then have i: "i < k"
    by (simp add: length_bytes_at)
  show "bytes_at (decoded_memory (encoded_memory mem input output k) output decoded k)
          decoded k ! i = bytes_at mem input k ! i"
    using i
    by (simp add: nth_bytes_at decoded_memory_inside encoded_memory_inside
        byte_of_digits_of_byte)
qed

subsection \<open>Results of the two functions\<close>

lemma uppercase_hexadecimal_eq: "uppercase_hexadecimal bs = concat (map digits_of_byte bs)"
proof -
  have "digits_of_byte =
        (\<lambda>b. [hexadecimal_digit (unat b div 16), hexadecimal_digit (unat b mod 16)])"
    by (rule ext) (rule digits_of_byte_eq)
  then show ?thesis
    by (simp add: uppercase_hexadecimal_def)
qed

lemma decode_pairs_eq:
  "decode_pairs cs =
   map (\<lambda>i. byte_of_digits (cs ! (2 * i)) (cs ! (2 * i + 1))) [0..<length cs div 2]"
proof (induction cs rule: decode_pairs.induct)
  case (1 c1 c2 cs)
  have "[0..<Suc (length cs div 2)] = 0 # map Suc [0..<length cs div 2]"
    by (simp add: upt_conv_Cons map_Suc_upt del: upt_Suc)
  with 1 show ?case
    by (simp add: comp_def del: upt_Suc)
qed simp_all

lemma bytes_at_decoded_memory:
  assumes "m div 2 = k"
  shows "bytes_at (decoded_memory mem input output k) output k =
         decode_pairs (bytes_at mem input m)"
proof -
  have "i < k \<Longrightarrow> 2 * i < m \<and> 2 * i + 1 < m" for i
    using assms by auto
  then show ?thesis
    unfolding decode_pairs_eq length_bytes_at assms
    by (auto simp: bytes_at_def decoded_memory_def add_ac)
qed

lemma nibble_of_char_uppercase:
  "nibble_of_char (unat (uppercase c)) = nibble_of_char (unat c)"
proof (cases "0x61 \<le> c \<and> c \<le> 0x66")
  case True
  then have r: "97 \<le> unat c" "unat c \<le> 102"
    by (simp_all add: word_le_nat_alt)
  have "(0x20 :: byte) \<le> c"
    using r by (simp add: word_le_nat_alt)
  then have "unat (c - 0x20) = unat c - 32"
    by (simp add: unat_sub)
  moreover have "nibble_of_char (unat c - 32) = of_nat (unat c - 32 - 55)"
    using r unfolding nibble_of_char_def by auto
  moreover have "nibble_of_char (unat c) = of_nat (unat c - 87)"
    using r unfolding nibble_of_char_def by auto
  moreover have "unat c - 32 - 55 = unat c - 87"
    by simp
  ultimately show ?thesis
    using True by (simp add: uppercase_def)
next
  case False
  then have "uppercase c = c"
    unfolding uppercase_def by (rule if_not_P)
  then show ?thesis
    by simp
qed

lemma byte_of_digits_uppercase:
  "byte_of_digits (uppercase c1) (uppercase c2) = byte_of_digits c1 c2"
  by (simp add: byte_of_digits_def nibble_lookup nibble_of_char_uppercase)

lemma decode_pairs_uppercase: "decode_pairs (map uppercase cs) = decode_pairs cs"
  by (induction cs rule: decode_pairs.induct) (simp_all add: byte_of_digits_uppercase)

lemma HexadecimalDecode_bytes:
  assumes "0 \<le> n"
  shows "bytes_of_result (HexadecimalDecode mem input n output output_size) output (nat (n div 2)) =
    (if \<not> (output \<le> input + 1 \<or> input + 2 * (n div 2) \<le> output) then Some (Inl BadOverlap)
     else if output_size < n div 2 then Some (Inl OutputTooSmall)
     else Some (Inr (decode_pairs (bytes_at mem input (nat (2 * (n div 2)))))))"
proof -
  have "nat (2 * (n div 2)) div 2 = nat (n div 2)"
    using assms by (simp add: nat_mult_distrib)
  from bytes_at_decoded_memory [OF this] show ?thesis
    by (simp add: HexadecimalDecode_eq [OF assms] bytes_of_result_def)
qed

lemma nibble_of_char_other:
  "\<not> is_hexadecimal_digit c \<Longrightarrow> nibble_of_char (unat c) = 0"
  unfolding is_hexadecimal_digit_def nibble_of_char_def
  by (auto simp: word_le_nat_alt)

text \<open>
  Two buffers that do not overlap pass the overlap \<^verbatim>\<open>CHECK\<close> of either function, when the
  output buffer has the size that the function requires.
\<close>

lemma disjoint_encode_accepted:
  "0 \<le> n \<Longrightarrow> 2 * n \<le> output_size \<Longrightarrow>
   input + n \<le> output \<or> output + output_size \<le> input \<Longrightarrow>
   input \<le> output + 1 \<or> output + 2 * n \<le> (input :: int)"
  by arith

lemma disjoint_decode_accepted:
  "0 \<le> n \<Longrightarrow> 0 \<le> output_size \<Longrightarrow>
   input + n \<le> output \<or> output + output_size \<le> input \<Longrightarrow>
   output \<le> input + 1 \<or> input + 2 * (n div 2) \<le> (output :: int)"
  by arith

section \<open>The claims on the hexadecimal codec\<close>

text \<open>
  Claim C1.  Take any memory and a buffer of \<open>n\<close> bytes at \<open>input\<close>.  Encode it into a
  buffer at \<open>output\<close> whose size is at least \<open>2 * n\<close>, then decode the \<open>2 * n\<close> bytes
  written there into a buffer at \<open>decoded\<close> whose size is at least \<open>n\<close>.  Both calls
  return normally, and the \<open>n\<close> bytes at \<open>decoded\<close> are the \<open>n\<close> bytes the input
  buffer held before the encoding.  The buffers are placed as each function's overlap
  \<^verbatim>\<open>CHECK\<close> accepts, which every pair of disjoint buffers is.
\<close>

theorem HexadecimalDecode_HexadecimalEncode:
  assumes "0 \<le> n"
    and "input \<le> output + 1 \<or> output + 2 * n \<le> input"
    and "2 * n \<le> output_size" and "output_size < 2 ^ 63"
    and "decoded \<le> output + 1 \<or> output + 2 * n \<le> decoded"
    and "n \<le> decoded_size"
  shows "\<exists>mem' mem''.
    HexadecimalEncode mem input n output output_size = Some (Inr mem') \<and>
    HexadecimalDecode mem' output (2 * n) decoded decoded_size = Some (Inr mem'') \<and>
    bytes_at mem'' decoded (nat n) = bytes_at mem input (nat n)"
proof -
  let ?mem' = "encoded_memory mem input output (nat n)"
  let ?mem'' = "decoded_memory ?mem' output decoded (nat n)"
  have small: "n < 2 ^ 62"
    using assms(3,4) by simp
  have enc: "HexadecimalEncode mem input n output output_size = Some (Inr ?mem')"
    using assms(2,3) by (simp add: HexadecimalEncode_eq [OF assms(1) small])
  have "0 \<le> 2 * n"
    using assms(1) by simp
  from HexadecimalDecode_eq [OF this]
  have dec: "HexadecimalDecode ?mem' output (2 * n) decoded decoded_size = Some (Inr ?mem'')"
    using assms(5,6) by simp
  show ?thesis
    using enc dec bytes_at_decoded_encoded by blast
qed

theorem HexadecimalDecode_HexadecimalEncode_witness:
  "\<exists>mem' mem''.
    HexadecimalEncode (memcpy blank 100 [0x00, 0xFF, 0xAB]) 100 3 200 6 = Some (Inr mem') \<and>
    HexadecimalDecode mem' 200 (2 * 3) 300 3 = Some (Inr mem'') \<and>
    bytes_at mem'' 300 3 = [0x00, 0xFF, 0xAB]"
proof -
  have b: "bytes_at (memcpy blank 100 [0x00, 0xFF, 0xAB]) 100 (nat 3) = [0x00, 0xFF, 0xAB]"
    by (simp add: bytes_at_def blank_def numeral_3_eq_3)
  show ?thesis
    using HexadecimalDecode_HexadecimalEncode
      [of 3 100 200 6 300 3 "memcpy blank 100 [0x00, 0xFF, 0xAB]"]
    unfolding b by simp
qed

text \<open>
  Claim C6.  For a buffer of \<open>n\<close> bytes and \<open>output_size\<close> at least \<open>2 * n\<close>,
  \<^verbatim>\<open>HexadecimalEncode\<close> returns normally and the \<open>2 * n\<close> bytes from \<open>output\<close> on are the
  two uppercase hexadecimal digits of each input byte, in order; every byte of memory
  outside these \<open>2 * n\<close> is as before.  The digits of a byte, which the code reads in the
  table \<^verbatim>\<open>kByteToHexadecimalDigits\<close>, are its two uppercase hexadecimal digits.  The bytes
  \<open>00 FF AB\<close> are encoded as the characters \<open>00FFAB\<close>.  The buffers are placed as the
  overlap \<^verbatim>\<open>CHECK\<close> accepts, which every pair of disjoint buffers is.
\<close>

theorem HexadecimalEncode_uppercase_digits:
  "(0 \<le> n \<and> (input \<le> output + 1 \<or> output + 2 * n \<le> input) \<and>
    2 * n \<le> output_size \<and> output_size < 2 ^ 63 \<longrightarrow>
      (\<exists>mem'. HexadecimalEncode mem input n output output_size = Some (Inr mem') \<and>
         bytes_at mem' output (nat (2 * n)) = uppercase_hexadecimal (bytes_at mem input (nat n)) \<and>
         length (uppercase_hexadecimal (bytes_at mem input (nat n))) = nat (2 * n) \<and>
         (\<forall>a. a < output \<or> output + 2 * n \<le> a \<longrightarrow> mem' a = mem a))) \<and>
   (\<forall>b. digits_of_byte b = uppercase_hexadecimal [b]) \<and>
   bytes_of_result (HexadecimalEncode (memcpy blank 100 [0x00, 0xFF, 0xAB]) 100 3 200 6) 200 6 =
     Some (Inr (map of_char ''00FFAB''))"
proof (intro conjI impI allI)
  assume a: "0 \<le> n \<and> (input \<le> output + 1 \<or> output + 2 * n \<le> input) \<and>
    2 * n \<le> output_size \<and> output_size < 2 ^ 63"
  then have small: "0 \<le> n" "n < 2 ^ 62"
    by simp_all
  let ?mem' = "encoded_memory mem input output (nat n)"
  have enc: "HexadecimalEncode mem input n output output_size = Some (Inr ?mem')"
    using a by (simp add: HexadecimalEncode_eq [OF small])
  have n2: "nat (2 * n) = 2 * nat n"
    using small by simp
  have out: "bytes_at ?mem' output (nat (2 * n)) = uppercase_hexadecimal (bytes_at mem input (nat n))"
    unfolding n2 uppercase_hexadecimal_eq by (rule bytes_at_encoded_memory)
  have len: "length (uppercase_hexadecimal (bytes_at mem input (nat n))) = nat (2 * n)"
    unfolding n2 uppercase_hexadecimal_eq by (simp add: length_concat_digits length_bytes_at)
  have rest: "\<forall>a. a < output \<or> output + 2 * n \<le> a \<longrightarrow> ?mem' a = mem a"
    using small by (simp add: encoded_memory_outside)
  show "\<exists>mem'. HexadecimalEncode mem input n output output_size = Some (Inr mem') \<and>
         bytes_at mem' output (nat (2 * n)) = uppercase_hexadecimal (bytes_at mem input (nat n)) \<and>
         length (uppercase_hexadecimal (bytes_at mem input (nat n))) = nat (2 * n) \<and>
         (\<forall>a. a < output \<or> output + 2 * n \<le> a \<longrightarrow> mem' a = mem a)"
    using enc out len rest by blast
next
  fix b
  show "digits_of_byte b = uppercase_hexadecimal [b]"
    by (simp add: uppercase_hexadecimal_eq)
next
  let ?mem = "memcpy blank 100 [0x00, 0xFF, 0xAB]"
  have enc: "HexadecimalEncode ?mem 100 3 200 6 = Some (Inr (encoded_memory ?mem 100 200 (nat 3)))"
    by (subst HexadecimalEncode_eq) simp_all
  have b: "bytes_at ?mem 100 (nat 3) = [0x00, 0xFF, 0xAB]"
    by (simp add: bytes_at_def blank_def numeral_3_eq_3)
  have "bytes_at (encoded_memory ?mem 100 200 (nat 3)) 200 (2 * nat 3) =
        concat (map digits_of_byte [0x00, 0xFF, 0xAB])"
    unfolding bytes_at_encoded_memory b ..
  also have "\<dots> = map of_char ''00FFAB''"
    by (simp add: digits_of_byte_eq hexadecimal_digit_def)
  finally show "bytes_of_result (HexadecimalEncode ?mem 100 3 200 6) 200 6 =
     Some (Inr (map of_char ''00FFAB''))"
    unfolding enc bytes_of_result_def by simp
qed

theorem HexadecimalEncode_uppercase_digits_witness:
  "\<exists>mem'. HexadecimalEncode (memcpy blank 100 [0x12, 0x9C]) 100 2 100 4 = Some (Inr mem') \<and>
     bytes_at mem' 100 4 = map of_char ''129C'' \<and>
     (\<forall>a. a < 100 \<or> 104 \<le> a \<longrightarrow> mem' a = memcpy blank 100 [0x12, 0x9C] a)"
proof -
  have b: "bytes_at (memcpy blank 100 [0x12, 0x9C]) 100 (nat 2) = [0x12, 0x9C]"
    by (simp add: bytes_at_def blank_def numeral_2_eq_2)
  have u: "uppercase_hexadecimal [0x12, 0x9C] = map of_char ''129C''"
    by (simp add: uppercase_hexadecimal_def hexadecimal_digit_def)
  show ?thesis
    using HexadecimalEncode_uppercase_digits
      [of 2 100 100 4 "memcpy blank 100 [0x12, 0x9C]", THEN conjunct1]
    unfolding b u by simp
qed

text \<open>
  Claim C7, as stated, fails.  With \<open>output = input\<close> and one byte of input the ranges
  overlap and \<open>output\<close> starts before \<open>input + 1\<close>, so the specification does not permit the
  placement; \<^verbatim>\<open>HexadecimalEncode\<close> accepts it and encodes the byte in place.
\<close>

theorem HexadecimalEncode_accepted_overlap_counterexample:
  "\<not> encode_overlap_permitted_by_spec 100 1 100 \<and>
   bytes_of_result (HexadecimalEncode (memcpy blank 100 [0x5A]) 100 1 100 2) 100 2 =
     Some (Inr (map of_char ''5A''))"
proof -
  let ?mem = "memcpy blank 100 [0x5A]"
  have enc: "HexadecimalEncode ?mem 100 1 100 2 = Some (Inr (encoded_memory ?mem 100 100 (nat 1)))"
    by (subst HexadecimalEncode_eq) simp_all
  have b: "bytes_at ?mem 100 (nat 1) = [0x5A]"
    by (simp add: bytes_at_def)
  have "bytes_at (encoded_memory ?mem 100 100 (nat 1)) 100 (2 * nat 1) =
        concat (map digits_of_byte [0x5A])"
    unfolding bytes_at_encoded_memory b ..
  also have "\<dots> = map of_char ''5A''"
    by (simp add: digits_of_byte_eq hexadecimal_digit_def)
  finally have "bytes_of_result (HexadecimalEncode ?mem 100 1 100 2) 100 2 =
     Some (Inr (map of_char ''5A''))"
    unfolding enc bytes_of_result_def by simp
  then show ?thesis
    by (simp add: encode_overlap_permitted_by_spec_def)
qed

text \<open>
  Claim C7, amended.  \<^verbatim>\<open>HexadecimalEncode\<close> fails its overlap \<^verbatim>\<open>CHECK\<close> exactly when neither
  \<open>input \<le> output + 1\<close> nor \<open>output + 2 * n \<le> input\<close>; for every placement it accepts, the
  output buffer receives the digits of the bytes that the input buffer held before the
  call, as it does with disjoint buffers.  \<^verbatim>\<open>HexadecimalDecode\<close> fails its overlap
  \<^verbatim>\<open>CHECK\<close> exactly when neither \<open>output \<le> input + 1\<close> nor \<open>input + n \<le> output\<close> (\<open>n\<close>
  truncated to even); for every placement it accepts, the output buffer receives the
  bytes denoted by the characters that the input buffer held before the call.
\<close>

theorem Hexadecimal_accepted_overlaps:
  "(0 \<le> n \<and> n < 2 ^ 62 \<longrightarrow>
     (HexadecimalEncode mem input n output output_size = Some (Inl BadOverlap) \<longleftrightarrow>
        \<not> (input \<le> output + 1 \<or> output + 2 * n \<le> input)) \<and>
     ((input \<le> output + 1 \<or> output + 2 * n \<le> input) \<and> 2 * n \<le> output_size \<longrightarrow>
        bytes_of_result (HexadecimalEncode mem input n output output_size) output (nat (2 * n)) =
          Some (Inr (concat (map digits_of_byte (bytes_at mem input (nat n))))))) \<and>
   (0 \<le> n \<longrightarrow>
     (HexadecimalDecode mem input n output output_size = Some (Inl BadOverlap) \<longleftrightarrow>
        \<not> (output \<le> input + 1 \<or> input + 2 * (n div 2) \<le> output)) \<and>
     ((output \<le> input + 1 \<or> input + 2 * (n div 2) \<le> output) \<and> n div 2 \<le> output_size \<longrightarrow>
        bytes_of_result (HexadecimalDecode mem input n output output_size) output (nat (n div 2)) =
          Some (Inr (decode_pairs (bytes_at mem input (nat n))))))"
proof (intro conjI impI)
  assume a: "0 \<le> n \<and> n < 2 ^ 62"
  then have n: "0 \<le> n" "n < 2 ^ 62" by simp_all
  show "HexadecimalEncode mem input n output output_size = Some (Inl BadOverlap) \<longleftrightarrow>
        \<not> (input \<le> output + 1 \<or> output + 2 * n \<le> input)"
    by (simp add: HexadecimalEncode_eq [OF n])
  assume g: "(input \<le> output + 1 \<or> output + 2 * n \<le> input) \<and> 2 * n \<le> output_size"
  have "nat (2 * n) = 2 * nat n"
    using n by simp
  then show "bytes_of_result (HexadecimalEncode mem input n output output_size) output (nat (2 * n)) =
          Some (Inr (concat (map digits_of_byte (bytes_at mem input (nat n)))))"
    using g by (simp add: HexadecimalEncode_eq [OF n] bytes_of_result_def bytes_at_encoded_memory)
next
  assume n: "0 \<le> n"
  show "HexadecimalDecode mem input n output output_size = Some (Inl BadOverlap) \<longleftrightarrow>
        \<not> (output \<le> input + 1 \<or> input + 2 * (n div 2) \<le> output)"
    by (simp add: HexadecimalDecode_eq [OF n])
  assume g: "(output \<le> input + 1 \<or> input + 2 * (n div 2) \<le> output) \<and> n div 2 \<le> output_size"
  have "nat n div 2 = nat (n div 2)"
    using n by (simp add: nat_div_distrib)
  from bytes_at_decoded_memory [OF this] show
    "bytes_of_result (HexadecimalDecode mem input n output output_size) output (nat (n div 2)) =
          Some (Inr (decode_pairs (bytes_at mem input (nat n))))"
    using g by (simp add: HexadecimalDecode_eq [OF n] bytes_of_result_def)
qed

theorem Hexadecimal_accepted_overlaps_witness:
  "HexadecimalEncode (memcpy blank 101 [0xDE, 0xAD]) 101 2 100 4 \<noteq> Some (Inl BadOverlap) \<and>
   bytes_of_result (HexadecimalEncode (memcpy blank 101 [0xDE, 0xAD]) 101 2 100 4) 100 4 =
     Some (Inr (map of_char ''DEAD'')) \<and>
   HexadecimalDecode (memcpy blank 100 (map of_char ''BEEF'')) 100 4 101 2 \<noteq> Some (Inl BadOverlap) \<and>
   bytes_of_result (HexadecimalDecode (memcpy blank 100 (map of_char ''BEEF'')) 100 4 101 2) 101 2 =
     Some (Inr [0xBE, 0xEF])"
proof -
  have b1: "bytes_at (memcpy blank 101 [0xDE, 0xAD]) 101 (nat 2) = [0xDE, 0xAD]"
    by (simp add: bytes_at_def blank_def eval_nat_numeral)
  have d1: "concat (map digits_of_byte [0xDE, 0xAD]) = map of_char ''DEAD''"
    by (simp add: digits_of_byte_eq hexadecimal_digit_def)
  have b2: "bytes_at (memcpy blank 100 (map of_char ''BEEF'')) 100 (nat 4) = map of_char ''BEEF''"
    by (simp add: bytes_at_def blank_def eval_nat_numeral)
  have d2: "decode_pairs (map of_char ''BEEF'') = [0xBE, 0xEF]"
    by (simp add: byte_of_digits_def nibble_table nibble_of_char_def)
  show ?thesis
    using Hexadecimal_accepted_overlaps
        [of 2 "memcpy blank 101 [0xDE, 0xAD]" 101 100 4, THEN conjunct1]
      Hexadecimal_accepted_overlaps
        [of 4 "memcpy blank 100 (map of_char ''BEEF'')" 100 101 2, THEN conjunct2]
    unfolding b1 d1 b2 d2 by simp
qed

text \<open>
  Claim C8, as stated, fails.  The size preconditions hold in both calls, and both calls
  fail an assertion: the overlap \<^verbatim>\<open>CHECK\<close>.
\<close>

theorem Hexadecimal_size_checks_counterexample:
  "2 * 4 \<le> (8 :: int) \<and> HexadecimalEncode blank 10 4 5 8 = Some (Inl BadOverlap) \<and>
   (4 AND NOT 1) sdiv 2 \<le> (2 :: int) \<and> HexadecimalDecode blank 10 4 12 2 = Some (Inl BadOverlap)"
proof -
  have "HexadecimalEncode blank 10 4 5 8 = Some (Inl BadOverlap)"
    by (subst HexadecimalEncode_eq) simp_all
  moreover have "HexadecimalDecode blank 10 4 12 2 = Some (Inl BadOverlap)"
    by (subst HexadecimalDecode_eq) simp_all
  moreover have "(4 AND NOT 1) sdiv 2 \<le> (2 :: int)"
    unfolding and_not_1 by (simp add: sdiv_2)
  ultimately show ?thesis
    by simp
qed

text \<open>
  Claim C8, amended.  \<^verbatim>\<open>HexadecimalEncode\<close> fails a \<^verbatim>\<open>CHECK\<close> when \<open>output_size < 2 * n\<close>, and
  \<^verbatim>\<open>HexadecimalDecode\<close> fails a \<^verbatim>\<open>CHECK\<close> when \<open>output_size\<close> is less than half of \<open>n\<close>
  truncated to even.  When the size precondition holds and the buffers are placed as the
  overlap \<^verbatim>\<open>CHECK\<close> accepts, the call fails no \<^verbatim>\<open>CHECK\<close> and returns normally.
\<close>

theorem Hexadecimal_size_checks:
  "(0 \<le> n \<and> n < 2 ^ 62 \<longrightarrow>
     (output_size < 2 * n \<longrightarrow>
        HexadecimalEncode mem input n output output_size = Some (Inl BadOverlap) \<or>
        HexadecimalEncode mem input n output output_size = Some (Inl OutputTooSmall)) \<and>
     (2 * n \<le> output_size \<and> (input \<le> output + 1 \<or> output + 2 * n \<le> input) \<longrightarrow>
        (\<exists>mem'. HexadecimalEncode mem input n output output_size = Some (Inr mem')))) \<and>
   (0 \<le> n \<longrightarrow>
     (output_size < (n AND NOT 1) sdiv 2 \<longrightarrow>
        HexadecimalDecode mem input n output output_size = Some (Inl BadOverlap) \<or>
        HexadecimalDecode mem input n output output_size = Some (Inl OutputTooSmall)) \<and>
     ((n AND NOT 1) sdiv 2 \<le> output_size \<and>
      (output \<le> input + 1 \<or> input + (n AND NOT 1) \<le> output) \<longrightarrow>
        (\<exists>mem'. HexadecimalDecode mem input n output output_size = Some (Inr mem'))))"
proof (intro conjI impI)
  assume "0 \<le> n \<and> n < 2 ^ 62"
  then have n: "0 \<le> n" "n < 2 ^ 62" by simp_all
  {
    assume "output_size < 2 * n"
    then show "HexadecimalEncode mem input n output output_size = Some (Inl BadOverlap) \<or>
        HexadecimalEncode mem input n output output_size = Some (Inl OutputTooSmall)"
      by (simp add: HexadecimalEncode_eq [OF n])
  }
  {
    assume "2 * n \<le> output_size \<and> (input \<le> output + 1 \<or> output + 2 * n \<le> input)"
    then show "\<exists>mem'. HexadecimalEncode mem input n output output_size = Some (Inr mem')"
      by (simp add: HexadecimalEncode_eq [OF n])
  }
next
  assume n: "0 \<le> n"
  have e: "2 * (n div 2) sdiv 2 = n div 2"
    using sdiv_2 [of "2 * (n div 2)"] n by simp
  {
    assume "output_size < (n AND NOT 1) sdiv 2"
    then show "HexadecimalDecode mem input n output output_size = Some (Inl BadOverlap) \<or>
        HexadecimalDecode mem input n output output_size = Some (Inl OutputTooSmall)"
      unfolding and_not_1 e by (simp add: HexadecimalDecode_eq [OF n])
  }
  {
    assume "(n AND NOT 1) sdiv 2 \<le> output_size \<and>
      (output \<le> input + 1 \<or> input + (n AND NOT 1) \<le> output)"
    then show "\<exists>mem'. HexadecimalDecode mem input n output output_size = Some (Inr mem')"
      unfolding and_not_1 e by (simp add: HexadecimalDecode_eq [OF n])
  }
qed

theorem Hexadecimal_size_checks_witness:
  "(HexadecimalEncode blank 100 3 200 5 = Some (Inl BadOverlap) \<or>
    HexadecimalEncode blank 100 3 200 5 = Some (Inl OutputTooSmall)) \<and>
   (\<exists>mem'. HexadecimalEncode blank 100 3 200 6 = Some (Inr mem')) \<and>
   (HexadecimalDecode blank 100 7 200 2 = Some (Inl BadOverlap) \<or>
    HexadecimalDecode blank 100 7 200 2 = Some (Inl OutputTooSmall)) \<and>
   (\<exists>mem'. HexadecimalDecode blank 100 7 200 3 = Some (Inr mem'))"
proof -
  have e: "(7 :: int) AND NOT 1 = 6"
    unfolding and_not_1 by simp
  have e': "6 sdiv 2 = (3 :: int)"
    by (simp add: sdiv_2)
  show ?thesis
    using Hexadecimal_size_checks [of 3 5 blank 100 200, THEN conjunct1]
      Hexadecimal_size_checks [of 3 6 blank 100 200, THEN conjunct1]
      Hexadecimal_size_checks [of 7 2 blank 100 200, THEN conjunct2]
      Hexadecimal_size_checks [of 7 3 blank 100 200, THEN conjunct2]
    unfolding e e' by simp
qed

text \<open>
  Claim C9.  The table \<^verbatim>\<open>kHexadecimalDigitsToNibble\<close> gives a letter \<open>a\<close> to \<open>f\<close> the nibble of
  its capital.  So when two memories hold, in the input buffer, bytes that are equal up to
  the case of the letters \<open>a\<close> to \<open>f\<close>, the two calls of \<^verbatim>\<open>HexadecimalDecode\<close> have the
  same outcome and write the same bytes to the output buffer.
\<close>

theorem HexadecimalDecode_case_insensitive:
  "kHexadecimalDigitsToNibble ! unat (uppercase c) = kHexadecimalDigitsToNibble ! unat c \<and>
   (0 \<le> n \<and>
    (\<forall>a. input \<le> a \<and> a < input + 2 * (n div 2) \<longrightarrow> uppercase (mem2 a) = uppercase (mem1 a)) \<longrightarrow>
      bytes_of_result (HexadecimalDecode mem2 input n output output_size) output (nat (n div 2)) =
      bytes_of_result (HexadecimalDecode mem1 input n output output_size) output (nat (n div 2)))"
proof (intro conjI impI)
  show "kHexadecimalDigitsToNibble ! unat (uppercase c) = kHexadecimalDigitsToNibble ! unat c"
    by (simp add: nibble_lookup nibble_of_char_uppercase)
next
  assume a: "0 \<le> n \<and>
    (\<forall>a. input \<le> a \<and> a < input + 2 * (n div 2) \<longrightarrow> uppercase (mem2 a) = uppercase (mem1 a))"
  let ?k = "nat (2 * (n div 2))"
  have "map uppercase (bytes_at mem2 input ?k) = map uppercase (bytes_at mem1 input ?k)"
    using a by (auto simp: bytes_at_def)
  then have "decode_pairs (bytes_at mem2 input ?k) = decode_pairs (bytes_at mem1 input ?k)"
    by (metis decode_pairs_uppercase)
  with a show "bytes_of_result (HexadecimalDecode mem2 input n output output_size) output (nat (n div 2)) =
      bytes_of_result (HexadecimalDecode mem1 input n output output_size) output (nat (n div 2))"
    by (simp add: HexadecimalDecode_bytes)
qed

theorem HexadecimalDecode_case_insensitive_witness:
  "bytes_of_result (HexadecimalDecode (memcpy blank 100 (map of_char ''fAcE'')) 100 4 200 2) 200 2 =
   bytes_of_result (HexadecimalDecode (memcpy blank 100 (map of_char ''FaCe'')) 100 4 200 2) 200 2 \<and>
   bytes_of_result (HexadecimalDecode (memcpy blank 100 (map of_char ''FaCe'')) 100 4 200 2) 200 2 =
     Some (Inr [0xFA, 0xCE])"
proof -
  let ?mem = "memcpy blank 100 (map of_char ''FaCe'')"
  have h: "bytes_of_result (HexadecimalDecode ?mem 100 4 200 2) 200 2 =
      Some (Inr (decode_pairs (bytes_at ?mem 100 4)))"
    using HexadecimalDecode_bytes [of 4 ?mem 100 200 2] by (simp del: memcpy.simps)
  have b: "bytes_at ?mem 100 4 = map of_char ''FaCe''"
    by (simp add: bytes_at_def blank_def eval_nat_numeral)
  have d: "decode_pairs (map of_char ''FaCe'') = [0xFA, 0xCE]"
    by (simp add: byte_of_digits_def nibble_table nibble_of_char_def)
  have v: "bytes_of_result (HexadecimalDecode ?mem 100 4 200 2) 200 2 = Some (Inr [0xFA, 0xCE])"
    unfolding h b d ..
  have "\<forall>a. 100 \<le> a \<and> a < 100 + 2 * (4 div 2) \<longrightarrow>
      uppercase (memcpy blank 100 (map of_char ''fAcE'') a) =
      uppercase (memcpy blank 100 (map of_char ''FaCe'') a)"
    by (simp add: uppercase_def blank_def)
  with HexadecimalDecode_case_insensitive
      [of _ 4 100 "memcpy blank 100 (map of_char ''fAcE'')"
        "memcpy blank 100 (map of_char ''FaCe'')" 200 2, THEN conjunct2]
  have "bytes_of_result (HexadecimalDecode (memcpy blank 100 (map of_char ''fAcE'')) 100 4 200 2)
      200 2 = bytes_of_result (HexadecimalDecode ?mem 100 4 200 2) 200 2"
    by simp
  with v show ?thesis
    by (simp only:)
qed

text \<open>
  Claim C10.  The table \<^verbatim>\<open>kHexadecimalDigitsToNibble\<close> is 0 at every byte that is not a
  hexadecimal digit.  Whatever bytes the memory holds, \<^verbatim>\<open>HexadecimalDecode\<close> with
  \<open>output_size\<close> at least \<open>n div 2\<close> returns normally, the \<open>n div 2\<close> bytes from \<open>output\<close>
  on are the bytes that the pairs of input characters denote, and every byte of memory
  outside these \<open>n div 2\<close> is as before.  The buffers are placed as the overlap
  \<^verbatim>\<open>CHECK\<close> accepts, which does not look at the bytes.
\<close>

theorem HexadecimalDecode_any_bytes:
  "(\<not> is_hexadecimal_digit c \<longrightarrow> kHexadecimalDigitsToNibble ! unat c = 0) \<and>
   (0 \<le> n \<and> (output \<le> input + 1 \<or> input + 2 * (n div 2) \<le> output) \<and>
    n div 2 \<le> output_size \<longrightarrow>
      (\<exists>mem'. HexadecimalDecode mem input n output output_size = Some (Inr mem') \<and>
         bytes_at mem' output (nat (n div 2)) = decode_pairs (bytes_at mem input (nat n)) \<and>
         length (decode_pairs (bytes_at mem input (nat n))) = nat (n div 2) \<and>
         (\<forall>a. a < output \<or> output + n div 2 \<le> a \<longrightarrow> mem' a = mem a)))"
proof (intro conjI impI)
  assume "\<not> is_hexadecimal_digit c"
  then show "kHexadecimalDigitsToNibble ! unat c = 0"
    by (simp add: nibble_lookup nibble_of_char_other)
next
  assume a: "0 \<le> n \<and> (output \<le> input + 1 \<or> input + 2 * (n div 2) \<le> output) \<and>
    n div 2 \<le> output_size"
  then have n: "0 \<le> n" by simp
  let ?mem' = "decoded_memory mem input output (nat (n div 2))"
  have dec: "HexadecimalDecode mem input n output output_size = Some (Inr ?mem')"
    using a by (simp add: HexadecimalDecode_eq [OF n])
  have "nat n div 2 = nat (n div 2)"
    using n by (simp add: nat_div_distrib)
  from bytes_at_decoded_memory [OF this]
  have out: "bytes_at ?mem' output (nat (n div 2)) = decode_pairs (bytes_at mem input (nat n))" .
  have len: "length (decode_pairs (bytes_at mem input (nat n))) = nat (n div 2)"
    unfolding out [symmetric] by (rule length_bytes_at)
  have rest: "\<forall>a. a < output \<or> output + n div 2 \<le> a \<longrightarrow> ?mem' a = mem a"
    using n by (simp add: decoded_memory_outside)
  show "\<exists>mem'. HexadecimalDecode mem input n output output_size = Some (Inr mem') \<and>
         bytes_at mem' output (nat (n div 2)) = decode_pairs (bytes_at mem input (nat n)) \<and>
         length (decode_pairs (bytes_at mem input (nat n))) = nat (n div 2) \<and>
         (\<forall>a. a < output \<or> output + n div 2 \<le> a \<longrightarrow> mem' a = mem a)"
    using dec out len rest by blast
qed

theorem HexadecimalDecode_any_bytes_witness:
  "\<not> is_hexadecimal_digit 0x7A \<and> kHexadecimalDigitsToNibble ! unat (0x7A :: byte) = 0 \<and>
   (\<exists>mem'. HexadecimalDecode (memcpy blank 100 (map of_char ''zz4G!'')) 100 5 200 2 =
       Some (Inr mem') \<and>
     bytes_at mem' 200 2 = [0x00, 0x40] \<and>
     (\<forall>a. a < 200 \<or> 202 \<le> a \<longrightarrow> mem' a = memcpy blank 100 (map of_char ''zz4G!'') a))"
proof -
  have z: "\<not> is_hexadecimal_digit 0x7A"
    by (simp add: is_hexadecimal_digit_def)
  have b: "bytes_at (memcpy blank 100 (map of_char ''zz4G!'')) 100 (nat 5) =
           map of_char ''zz4G!''"
    by (simp add: bytes_at_def blank_def eval_nat_numeral)
  have d: "decode_pairs (map of_char ''zz4G!'') = [0x00, 0x40]"
    by (simp add: byte_of_digits_def nibble_table nibble_of_char_def)
  show ?thesis
    using z HexadecimalDecode_any_bytes [of "0x7A", THEN conjunct1]
      HexadecimalDecode_any_bytes
        [of _ 5 200 100 2 "memcpy blank 100 (map of_char ''zz4G!'')", THEN conjunct2]
    unfolding b d by simp
qed

section \<open>Properties of the push deserializer\<close>

lemma pieces_Nil: "pieces cs [] = [[]]"
  by (simp add: pieces.simps)

lemma pieces_not_Nil: "pieces cs bytes \<noteq> []"
  by (subst pieces.simps) simp

lemma concat_pieces: "concat (pieces cs bytes) = bytes"
proof (induction cs bytes rule: pieces.induct)
  case (1 cs bytes)
  show ?case
  proof (cases "cs = 0 \<or> length bytes \<le> cs")
    case True
    then show ?thesis
      by (subst pieces.simps) simp
  next
    case False
    with 1 show ?thesis
      by (subst pieces.simps) simp
  qed
qed

lemma length_pieces:
  "0 < cs \<Longrightarrow> c \<in> set (pieces cs bytes) \<Longrightarrow> length c \<le> cs"
proof (induction cs bytes rule: pieces.induct)
  case (1 cs bytes)
  show ?case
  proof (cases "cs = 0 \<or> length bytes \<le> cs")
    case True
    with "1.prems" show ?thesis
      by (subst (asm) pieces.simps) simp
  next
    case False
    with "1.prems"(2) have "c = take cs bytes \<or> c \<in> set (pieces cs (drop cs bytes))"
      by (subst (asm) pieces.simps) simp
    with 1 False show ?thesis
      by auto
  qed
qed

lemma pieces_nonempty:
  "bytes \<noteq> [] \<Longrightarrow> c \<in> set (pieces cs bytes) \<Longrightarrow> c \<noteq> []"
proof (induction cs bytes rule: pieces.induct)
  case (1 cs bytes)
  show ?case
  proof (cases "cs = 0 \<or> length bytes \<le> cs")
    case True
    with "1.prems" show ?thesis
      by (subst (asm) pieces.simps) simp
  next
    case False
    with "1.prems"(2) have "c = take cs bytes \<or> c \<in> set (pieces cs (drop cs bytes))"
      by (subst (asm) pieces.simps) simp
    moreover have "take cs bytes \<noteq> []" "drop cs bytes \<noteq> []"
      using False by auto
    ultimately show ?thesis
      using 1 False by auto
  qed
qed

lemma step_cases [consumes 1, case_names CallPush Enqueue CallPull]:
  assumes "step s a = Some s'"
  obtains bytes where "a = CallPush bytes" "pushing s = []" "\<not> end_of_input s"
      "s' = s\<lparr>pushing := pieces (chunk_size (deserializer s)) bytes,
             end_of_input := (bytes = []), pushed := pushed s @ [bytes]\<rparr>"
  | chunk rest where "a = Enqueue" "pushing s = chunk # rest"
      "length (queue (deserializer s)) \<noteq> number_of_chunks (deserializer s)"
      "s' = s\<lparr>deserializer := (deserializer s)\<lparr>queue := queue (deserializer s) @ [chunk]\<rparr>,
             pushing := rest, enqueued := enqueued s @ [chunk]\<rparr>"
  | chunk rest where "a = CallPull" "\<not> end_of_stream s" "queue (deserializer s) = chunk # rest"
      "s' = s\<lparr>deserializer := (deserializer s)\<lparr>queue := rest\<rparr>,
             pulled := pulled s @ [chunk]\<rparr>"
proof (cases a)
  case (CallPush bytes)
  with assms that(1) [of bytes] show ?thesis
    by (auto simp: Push_def split: if_splits)
next
  case Enqueue
  with assms that(2) show ?thesis
    by (auto simp: Push_enqueue_def Put_def split: list.splits if_splits)
next
  case CallPull
  with assms that(3) show ?thesis
    by (auto simp: Pull_def Get_def split: list.splits if_splits)
qed

lemma run_invariant:
  assumes "run s as = Some s'" and "P s"
    and "\<And>s a s'. P s \<Longrightarrow> step s a = Some s' \<Longrightarrow> P s'"
  shows "P s'"
  using assms(1,2)
proof (induction as arbitrary: s)
  case Nil
  then show ?case by simp
next
  case (Cons a as)
  then obtain s1 where "step s a = Some s1" "run s1 as = Some s'"
    by (auto split: option.splits)
  with Cons.IH [of s1] Cons.prems(2) assms(3) show ?case
    by blast
qed

lemma bounded_start: "bounded cs n (start cs n)"
  by (simp add: bounded_def start_def new_PushDeserializer_def)

lemma bounded_step:
  assumes "0 < cs" "bounded cs n s" "step s a = Some s'"
  shows "bounded cs n s'"
  using assms(3)
proof (cases rule: step_cases)
  case (CallPush bytes)
  with assms(1,2) show ?thesis
    by (auto simp: bounded_def dest: length_pieces)
next
  case (Enqueue chunk rest)
  with assms(2) show ?thesis
    by (auto simp: bounded_def)
next
  case (CallPull chunk rest)
  with assms(2) show ?thesis
    by (auto simp: bounded_def)
qed

lemma fifo_start: "fifo (start cs n)"
  by (simp add: fifo_def start_def new_PushDeserializer_def)

lemma fifo_step:
  assumes "fifo s" "step s a = Some s'"
  shows "fifo s'"
  using assms(2)
proof (cases rule: step_cases)
  case (CallPush bytes)
  with assms(1) show ?thesis
    by (auto simp: fifo_def)
next
  case (Enqueue chunk rest)
  with assms(1) show ?thesis
    by (auto simp: fifo_def)
next
  case (CallPull chunk rest)
  with assms(1) show ?thesis
    by (auto simp: fifo_def)
qed

lemma sentinel_last_start: "sentinel_last n (start cs n)"
  by (simp add: sentinel_last_def start_def new_PushDeserializer_def in_flight_def)

lemma in_flight_Enqueue:
  "pushing s = chunk # rest \<Longrightarrow>
   in_flight (s\<lparr>deserializer := (deserializer s)\<lparr>queue := queue (deserializer s) @ [chunk]\<rparr>,
                pushing := rest, enqueued := e\<rparr>) = in_flight s"
  by (simp add: in_flight_def)

lemma in_flight_CallPull:
  "queue (deserializer s) = chunk # rest \<Longrightarrow>
   in_flight (s\<lparr>deserializer := (deserializer s)\<lparr>queue := rest\<rparr>,
                pulled := pulled s @ [chunk]\<rparr>) = in_flight s"
  by (simp add: in_flight_def)

lemma in_flight_CallPush:
  "pushing s = [] \<Longrightarrow>
   in_flight (s\<lparr>pushing := ps, end_of_input := e, pushed := p\<rparr>) = in_flight s @ ps"
  by (simp add: in_flight_def)

lemma sentinel_last_step:
  assumes "sentinel_last n s" "step s a = Some s'"
  shows "sentinel_last n s'"
  using assms(2)
proof (cases rule: step_cases)
  case (CallPush bytes)
  let ?ps = "pieces (chunk_size (deserializer s)) bytes"
  have old: "\<forall>c \<in> set (in_flight s). c \<noteq> []"
  proof
    fix c
    assume c: "c \<in> set (in_flight s)"
    then have ne: "in_flight s \<noteq> []" by auto
    then have "in_flight s = butlast (in_flight s) @ [last (in_flight s)]"
      by simp
    then have "c \<in> set (butlast (in_flight s)) \<or> c = last (in_flight s)"
      using c by (metis Un_iff empty_iff insert_iff list.set(1,2) set_append)
    with assms(1) CallPush(3) ne show "c \<noteq> []"
      by (auto simp: sentinel_last_def)
  qed
  have fl: "in_flight s' = in_flight s @ ?ps"
    unfolding CallPush(4) by (rule in_flight_CallPush [OF CallPush(2)])
  have ps: "?ps \<noteq> []"
    by (rule pieces_not_Nil)
  have n: "number_of_chunks (deserializer s') = n"
    using assms(1) CallPush(4) by (simp add: sentinel_last_def)
  have e: "end_of_input s' \<longleftrightarrow> bytes = []"
    using CallPush(4) by simp
  show ?thesis
  proof (cases "bytes = []")
    case True
    then have "in_flight s' = in_flight s @ [[]]"
      using fl by (simp add: pieces_Nil)
    with old n e True show ?thesis
      by (simp add: sentinel_last_def)
  next
    case False
    then have new: "\<forall>c \<in> set ?ps. c \<noteq> []"
      using pieces_nonempty by blast
    have "set (butlast (in_flight s')) \<subseteq> set (in_flight s) \<union> set ?ps"
      unfolding fl using ps by (auto simp: butlast_append dest: in_set_butlastD)
    moreover have "last (in_flight s') \<in> set ?ps"
      unfolding fl using ps by simp
    ultimately show ?thesis
      using old new n e False unfolding sentinel_last_def by blast
  qed
next
  case (Enqueue chunk rest)
  have "in_flight s' = in_flight s"
    unfolding Enqueue(4) by (rule in_flight_Enqueue [OF Enqueue(2)])
  with assms(1) Enqueue(4) show ?thesis
    by (simp add: sentinel_last_def)
next
  case (CallPull chunk rest)
  have "in_flight s' = in_flight s"
    unfolding CallPull(4) by (rule in_flight_CallPull [OF CallPull(3)])
  with assms(1) CallPull(4) show ?thesis
    by (simp add: sentinel_last_def)
qed

lemma step_after_end_of_input:
  assumes "end_of_input s" "step s a = Some s'"
  shows "end_of_input s' \<and> remaining s' < remaining s"
  using assms(2)
proof (cases rule: step_cases)
  case (CallPush bytes)
  with assms(1) show ?thesis by simp
next
  case (Enqueue chunk rest)
  with assms(1) show ?thesis by (simp add: remaining_def)
next
  case (CallPull chunk rest)
  with assms(1) show ?thesis by (simp add: remaining_def)
qed

lemma run_after_end_of_input:
  "end_of_input s \<Longrightarrow> run s as = Some s' \<Longrightarrow>
   end_of_input s' \<and> length as + remaining s' \<le> remaining s"
proof (induction as arbitrary: s)
  case Nil
  then show ?case by simp
next
  case (Cons a as)
  then obtain s1 where s1: "step s a = Some s1" "run s1 as = Some s'"
    by (auto split: option.splits)
  from step_after_end_of_input [OF Cons.prems(1) s1(1)]
  have "end_of_input s1" "remaining s1 < remaining s"
    by simp_all
  with Cons.IH [OF _ s1(2)] show ?case
    by simp
qed

lemma quiescent_end_of_stream:
  assumes "sentinel_last n s" "0 < n" "end_of_input s" "quiescent s"
  shows "end_of_stream s"
proof (rule ccontr)
  assume open_: "\<not> end_of_stream s"
  with assms(4) have q: "queue (deserializer s) = []"
    by (auto simp: quiescent_def Pull_def Get_def split: list.splits)
  with assms(1,2,4) have p: "pushing s = []"
    by (auto simp: quiescent_def Push_enqueue_def Put_def sentinel_last_def split: list.splits)
  from q p have "in_flight s = pulled s"
    by (simp add: in_flight_def)
  with assms(1,3) have "end_of_stream s"
    by (simp add: sentinel_last_def end_of_stream_def)
  with open_ show False ..
qed

lemma progress:
  assumes "sentinel_last n s" "0 < n" "end_of_input s" "\<not> end_of_stream s"
  shows "\<exists>a s'. step s a = Some s'"
proof -
  from quiescent_end_of_stream [OF assms(1-3)] assms(4) have "\<not> quiescent s"
    by blast
  then consider s' where "Push_enqueue s = Some s'" | r where "Pull s = Some r"
    by (auto simp: quiescent_def)
  then show ?thesis
  proof cases
    case 1
    then have "step s Enqueue = Some s'" by simp
    then show ?thesis by blast
  next
    case 2
    then have "step s CallPull = Some (snd r)" by simp
    then show ?thesis by blast
  qed
qed

lemma eventually_end_of_stream:
  assumes "0 < n"
  shows "sentinel_last n s \<Longrightarrow> end_of_input s \<Longrightarrow>
    \<exists>as s'. run s as = Some s' \<and> end_of_stream s'"
proof (induction "remaining s" arbitrary: s rule: less_induct)
  case less
  show ?case
  proof (cases "end_of_stream s")
    case True
    then have "run s [] = Some s \<and> end_of_stream s" by simp
    then show ?thesis by blast
  next
    case False
    from progress [OF less.prems(1) assms less.prems(2) False]
    obtain a s1 where s1: "step s a = Some s1" by blast
    from step_after_end_of_input [OF less.prems(2) s1]
    have e: "end_of_input s1" and r: "remaining s1 < remaining s"
      by simp_all
    from less.hyps [OF r sentinel_last_step [OF less.prems(1) s1] e]
    obtain as s' where "run s1 as = Some s'" "end_of_stream s'" by blast
    with s1 have "run s (a # as) = Some s' \<and> end_of_stream s'" by simp
    then show ?thesis by blast
  qed
qed

lemma sum_list_length_le:
  "\<forall>c \<in> set q. length c \<le> cs \<Longrightarrow> sum_list (map length q) \<le> length q * cs"
  by (induction q) auto

lemma run_bounded:
  assumes "0 < cs" "run (start cs n) as = Some s"
  shows "bounded cs n s"
  using assms(2) bounded_start
proof (rule run_invariant)
  fix s a s'
  assume "bounded cs n s" "step s a = Some s'"
  then show "bounded cs n s'"
    by (rule bounded_step [OF assms(1)])
qed

lemma run_fifo:
  assumes "run (start cs n) as = Some s"
  shows "fifo s"
  using assms fifo_start by (rule run_invariant) (rule fifo_step)

lemma run_sentinel_last:
  assumes "run (start cs n) as = Some s"
  shows "sentinel_last n s"
  using assms sentinel_last_start by (rule run_invariant) (rule sentinel_last_step)

lemma run_chunk_size:
  assumes "run (start cs n) as = Some s"
  shows "chunk_size (deserializer s) = cs"
proof -
  have "chunk_size (deserializer (start cs n)) = cs"
    by (simp add: start_def new_PushDeserializer_def)
  with assms show ?thesis
  proof (rule run_invariant)
    fix s a s'
    assume "chunk_size (deserializer s) = cs" "step s a = Some s'"
    from this(2,1) show "chunk_size (deserializer s') = cs"
      by (cases rule: step_cases) simp_all
  qed
qed

lemma end_of_stream_drained:
  assumes "sentinel_last n s" "end_of_stream s"
  shows "queue (deserializer s) @ pushing s = []"
proof (rule ccontr)
  from assms(2) have p: "pulled s \<noteq> []" "last (pulled s) = []"
    by (simp_all add: end_of_stream_def)
  assume ne: "queue (deserializer s) @ pushing s \<noteq> []"
  then have "butlast (in_flight s) =
      pulled s @ butlast (queue (deserializer s) @ pushing s)"
    by (auto simp: in_flight_def butlast_append)
  with p(1) have "last (pulled s) \<in> set (butlast (in_flight s))"
    by simp
  with assms(1) p(2) show False
    by (auto simp: sentinel_last_def)
qed

lemma end_of_stream_end_of_input:
  assumes "sentinel_last n s" "end_of_stream s"
  shows "end_of_input s"
proof -
  from assms(2) have p: "pulled s \<noteq> []" "last (pulled s) = []"
    by (simp_all add: end_of_stream_def)
  from end_of_stream_drained [OF assms] have "in_flight s = pulled s"
    by (simp add: in_flight_def)
  with assms(1) p show ?thesis
    by (simp add: sentinel_last_def)
qed

lemma run_append:
  "run s (as @ bs) = (case run s as of None \<Rightarrow> None | Some s' \<Rightarrow> run s' bs)"
  by (induction as arbitrary: s) (simp_all split: option.splits)

section \<open>The claims on the push deserializer\<close>

text \<open>
  Claim C2.  The pieces of the bytes pushed, one after the other, are the bytes, and with
  a positive chunk size none is larger than the chunk size.  A call of \<^verbatim>\<open>Push\<close> sets out
  to enqueue these pieces, each turn of its loop moves the first piece left to the back
  of the queue, and in every reachable state the chunks enqueued so far followed by the
  pieces left are the pieces of all the bytes pushed, in order; so are the chunks pulled
  followed by the chunks in the queue and the pieces left.  With chunk size 4 and 2
  chunks, the bytes \<open>0..9\<close> are split into \<open>[0,1,2,3]\<close>, \<open>[4,5,6,7]\<close>, \<open>[8,9]\<close>; under every
  schedule these three chunks are what is pulled, queued and left, in this order, and a
  schedule on which the decoding side pulls all three is given.
\<close>

theorem Push_splits_in_order:
  "(0 < cs \<longrightarrow>
      concat (pieces cs bytes) = bytes \<and> (\<forall>c \<in> set (pieces cs bytes). length c \<le> cs)) \<and>
   (\<not> end_of_input s \<longrightarrow>
      (\<exists>s'. Push s bytes = Inr s' \<and> pushing s' = pieces (chunk_size (deserializer s)) bytes)) \<and>
   (Push_enqueue s = Some s' \<longrightarrow>
      (\<exists>c. pushing s = c # pushing s' \<and>
           queue (deserializer s') = queue (deserializer s) @ [c] \<and>
           enqueued s' = enqueued s @ [c])) \<and>
   (run (start cs n) as = Some s \<longrightarrow>
      enqueued s @ pushing s = concat (map (pieces cs) (pushed s)) \<and>
      in_flight s = concat (map (pieces cs) (pushed s))) \<and>
   pieces 4 [0, 1, 2, 3, 4, 5, 6, 7, 8, 9] = [[0, 1, 2, 3], [4, 5, 6, 7], [8, 9]] \<and>
   (run (start 4 2) as = Some s \<and> pushed s = [[0, 1, 2, 3, 4, 5, 6, 7, 8, 9]] \<longrightarrow>
      in_flight s = [[0, 1, 2, 3], [4, 5, 6, 7], [8, 9]]) \<and>
   map_option pulled
     (run (start 4 2)
       [CallPush [0, 1, 2, 3, 4, 5, 6, 7, 8, 9],
        Enqueue, Enqueue, CallPull, Enqueue, CallPull, CallPull]) =
     Some [[0, 1, 2, 3], [4, 5, 6, 7], [8, 9]]"
proof (intro conjI impI)
  assume "0 < cs"
  then show "\<forall>c \<in> set (pieces cs bytes). length c \<le> cs"
    by (blast intro: length_pieces)
next
  show "concat (pieces cs bytes) = bytes"
    by (rule concat_pieces)
next
  assume "\<not> end_of_input s"
  then show "\<exists>s'. Push s bytes = Inr s' \<and> pushing s' = pieces (chunk_size (deserializer s)) bytes"
    by (simp add: Push_def)
next
  assume "Push_enqueue s = Some s'"
  then show "\<exists>c. pushing s = c # pushing s' \<and>
           queue (deserializer s') = queue (deserializer s) @ [c] \<and>
           enqueued s' = enqueued s @ [c]"
    by (auto simp: Push_enqueue_def Put_def split: list.splits if_splits)
next
  assume r: "run (start cs n) as = Some s"
  from run_fifo [OF r] run_chunk_size [OF r]
  show "enqueued s @ pushing s = concat (map (pieces cs) (pushed s))"
    by (simp add: fifo_def)
  from run_fifo [OF r] run_chunk_size [OF r]
  show "in_flight s = concat (map (pieces cs) (pushed s))"
    by (simp add: fifo_def in_flight_def flip: append_assoc)
next
  show "pieces 4 [0, 1, 2, 3, 4, 5, 6, 7, 8, 9] = [[0, 1, 2, 3], [4, 5, 6, 7], [8, 9]]"
    by (simp add: pieces.simps)
next
  assume r: "run (start 4 2) as = Some s \<and> pushed s = [[0, 1, 2, 3, 4, 5, 6, 7, 8, 9]]"
  then have "fifo s" "chunk_size (deserializer s) = 4"
    using run_fifo run_chunk_size by blast+
  with r show "in_flight s = [[0, 1, 2, 3], [4, 5, 6, 7], [8, 9]]"
    by (simp add: fifo_def in_flight_def pieces.simps flip: append_assoc)
next
  show "map_option pulled
     (run (start 4 2)
       [CallPush [0, 1, 2, 3, 4, 5, 6, 7, 8, 9],
        Enqueue, Enqueue, CallPull, Enqueue, CallPull, CallPull]) =
     Some [[0, 1, 2, 3], [4, 5, 6, 7], [8, 9]]"
    by (simp add: pieces.simps start_def new_PushDeserializer_def Push_def Push_enqueue_def
        Put_def Pull_def Get_def end_of_stream_def)
qed

theorem Push_splits_in_order_witness:
  "concat (pieces 3 [1, 2, 3, 4, 5, 6, 7]) = [1, 2, 3, 4, 5, 6, 7] \<and>
   list_all (\<lambda>c. length c \<le> 3) (pieces 3 [1, 2, 3, 4, 5, 6, 7]) \<and>
   (\<exists>s s'. run (start 3 1) [CallPush [1, 2, 3, 4, 5, 6, 7]] = Some s \<and>
      Push_enqueue s = Some s' \<and>
      enqueued s @ pushing s = concat (map (pieces 3) (pushed s)) \<and>
      queue (deserializer s') = queue (deserializer s) @ [hd (pushing s)] \<and>
      (\<exists>s''. Push s [8] = Inr s'' \<and> pushing s'' = pieces 3 [8]))"
proof -
  define s where "s =
    \<lparr>deserializer = \<lparr>chunk_size = 3, number_of_chunks = 1, queue = []\<rparr>,
     pushing = [[1, 2, 3], [4, 5, 6], [7 :: byte]], end_of_input = False,
     pushed = [[1, 2, 3, 4, 5, 6, 7]], enqueued = [], pulled = []\<rparr>"
  define s' where "s' =
    \<lparr>deserializer = \<lparr>chunk_size = 3, number_of_chunks = 1, queue = [[1, 2, 3]]\<rparr>,
     pushing = [[4, 5, 6], [7 :: byte]], end_of_input = False,
     pushed = [[1, 2, 3, 4, 5, 6, 7]], enqueued = [[1, 2, 3]], pulled = []\<rparr>"
  have r: "run (start 3 1) [CallPush [1, 2, 3, 4, 5, 6, 7]] = Some s"
    by (simp add: s_def pieces.simps start_def new_PushDeserializer_def Push_def)
  have e: "Push_enqueue s = Some s'"
    by (simp add: s_def s'_def Push_enqueue_def Put_def)
  have n: "\<not> end_of_input s" "(0 :: nat) < 3" "chunk_size (deserializer s) = 3"
    by (simp_all add: s_def)
  note a = Push_splits_in_order [of 3 "[1, 2, 3, 4, 5, 6, 7]" s s' 1 "[CallPush [1, 2, 3, 4, 5, 6, 7]]"]
  note b = Push_splits_in_order [of 3 "[8]" s s' 1 "[CallPush [1, 2, 3, 4, 5, 6, 7]]"]
  have 1: "concat (pieces 3 [1, 2, 3, 4, 5, 6, 7 :: byte]) = [1, 2, 3, 4, 5, 6, 7]"
    and 2: "list_all (\<lambda>c. length c \<le> 3) (pieces 3 [1, 2, 3, 4, 5, 6, 7 :: byte])"
    and 3: "enqueued s @ pushing s = concat (map (pieces 3) (pushed s))"
    and 4: "queue (deserializer s') = queue (deserializer s) @ [hd (pushing s)]"
    using a r e n by (auto simp: list_all_iff)
  have 5: "\<exists>s''. Push s [8] = Inr s'' \<and> pushing s'' = pieces 3 [8]"
    using b n by simp
  show ?thesis
    using 1 2 3 4 5 r e by blast
qed

text \<open>
  Claim C3.  In every reachable state of a pipeline the queue holds at most
  \<open>number_of_chunks\<close> chunks, each chunk in it has at most \<open>chunk_size\<close> bytes, and so the
  queue holds at most \<open>number_of_chunks * chunk_size\<close> bytes, whatever was pushed.
\<close>

theorem queue_bounded:
  assumes "0 < cs" and "run (start cs n) as = Some s"
  shows "number_of_chunks (deserializer s) = n \<and> chunk_size (deserializer s) = cs \<and>
    length (queue (deserializer s)) \<le> n \<and>
    (\<forall>c \<in> set (queue (deserializer s)). length c \<le> cs) \<and>
    sum_list (map length (queue (deserializer s))) \<le> n * cs"
proof -
  from run_bounded [OF assms] have b: "chunk_size (deserializer s) = cs"
    "number_of_chunks (deserializer s) = n" "length (queue (deserializer s)) \<le> n"
    "\<forall>c \<in> set (queue (deserializer s)). length c \<le> cs"
    by (simp_all add: bounded_def)
  from sum_list_length_le [OF b(4)]
  have "sum_list (map length (queue (deserializer s))) \<le> length (queue (deserializer s)) * cs" .
  also have "\<dots> \<le> n * cs"
    using b(3) by simp
  finally show ?thesis
    using b by simp
qed

theorem queue_bounded_witness:
  "\<exists>s. run (start 4 2) [CallPush [0, 1, 2, 3, 4, 5, 6, 7, 8, 9], Enqueue, Enqueue] = Some s \<and>
     queue (deserializer s) = [[0, 1, 2, 3], [4, 5, 6, 7]] \<and>
     Push_enqueue s = None \<and>
     length (queue (deserializer s)) \<le> 2 \<and>
     list_all (\<lambda>c. length c \<le> 4) (queue (deserializer s)) \<and>
     sum_list (map length (queue (deserializer s))) \<le> 2 * 4"
proof -
  define s where "s =
    \<lparr>deserializer = \<lparr>chunk_size = 4, number_of_chunks = 2,
       queue = [[0, 1, 2, 3], [4, 5, 6, 7 :: byte]]\<rparr>,
     pushing = [[8, 9]], end_of_input = False,
     pushed = [[0, 1, 2, 3, 4, 5, 6, 7, 8, 9]], enqueued = [[0, 1, 2, 3], [4, 5, 6, 7]],
     pulled = []\<rparr>"
  have r: "run (start 4 2) [CallPush [0, 1, 2, 3, 4, 5, 6, 7, 8, 9], Enqueue, Enqueue] = Some s"
    by (simp add: s_def pieces.simps start_def new_PushDeserializer_def Push_def
        Push_enqueue_def Put_def)
  have q: "queue (deserializer s) = [[0, 1, 2, 3], [4, 5, 6, 7]]" "Push_enqueue s = None"
    by (simp_all add: s_def Push_enqueue_def Put_def)
  have "(0 :: nat) < 4" by simp
  from queue_bounded [OF this r] have
    "length (queue (deserializer s)) \<le> 2"
    "list_all (\<lambda>c. length c \<le> 4) (queue (deserializer s))"
    "sum_list (map length (queue (deserializer s))) \<le> 2 * 4"
    by (simp_all add: list_all_iff)
  with r q show ?thesis
    by blast
qed

text \<open>
  Claim C4.  In every reachable state the chunks that \<^verbatim>\<open>Pull\<close> has returned, followed by
  the chunks in the queue, are exactly the chunks enqueued, in the order they were
  enqueued: none is lost, repeated or out of place.  \<open>Put\<close> appends its chunk at the back
  of the queue, \<open>Get\<close> and \<^verbatim>\<open>Pull\<close> take the chunk at the front, and in a reachable state
  \<^verbatim>\<open>Pull\<close> returns the front chunk whenever the queue holds one.
\<close>

theorem Pull_in_order:
  "(run (start cs n) as = Some s \<longrightarrow> pulled s @ queue (deserializer s) = enqueued s) \<and>
   (Put d chunk = Some d' \<longrightarrow> queue d' = queue d @ [chunk]) \<and>
   (Get d = Some (chunk, d') \<longrightarrow> queue d = chunk # queue d') \<and>
   (Pull s = Some (chunk, s') \<longrightarrow>
      queue (deserializer s) = chunk # queue (deserializer s') \<and>
      pulled s' = pulled s @ [chunk] \<and> enqueued s' = enqueued s) \<and>
   (run (start cs n) as = Some s \<and> queue (deserializer s) \<noteq> [] \<longrightarrow>
      (\<exists>s'. Pull s = Some (hd (queue (deserializer s)), s')))"
proof (intro conjI impI)
  assume a: "run (start cs n) as = Some s \<and> queue (deserializer s) \<noteq> []"
  then have "sentinel_last n s"
    using run_sentinel_last by blast
  with a have "\<not> end_of_stream s"
    using end_of_stream_drained by fastforce
  with a show "\<exists>s'. Pull s = Some (hd (queue (deserializer s)), s')"
    by (auto simp: Pull_def Get_def split: list.splits)
next
  assume "run (start cs n) as = Some s"
  from run_fifo [OF this] show "pulled s @ queue (deserializer s) = enqueued s"
    by (simp add: fifo_def)
next
  assume "Put d chunk = Some d'"
  then show "queue d' = queue d @ [chunk]"
    by (auto simp: Put_def split: if_splits)
next
  assume "Get d = Some (chunk, d')"
  then show "queue d = chunk # queue d'"
    by (auto simp: Get_def split: list.splits)
next
  assume p: "Pull s = Some (chunk, s')"
  then show "queue (deserializer s) = chunk # queue (deserializer s')"
    by (auto simp: Pull_def Get_def split: list.splits if_splits)
  from p show "pulled s' = pulled s @ [chunk]"
    by (auto simp: Pull_def Get_def split: list.splits if_splits)
  from p show "enqueued s' = enqueued s"
    by (auto simp: Pull_def Get_def split: list.splits if_splits)
qed

theorem Pull_in_order_witness:
  "\<exists>s s'. run (start 2 3) [CallPush [1, 2, 3, 4, 5], Enqueue, Enqueue, CallPull, Enqueue] = Some s \<and>
     Pull s = Some ([3, 4], s') \<and>
     enqueued s = [[1, 2], [3, 4], [5]] \<and>
     pulled s = [[1, 2]] \<and> queue (deserializer s) = [[3, 4], [5]] \<and>
     pulled s' = [[1, 2], [3, 4]] \<and> queue (deserializer s') = [[5]] \<and>
     pulled s @ queue (deserializer s) = enqueued s \<and>
     Put (deserializer s') [6] = Some ((deserializer s')\<lparr>queue := [[5], [6]]\<rparr>) \<and>
     Get (deserializer s') = Some ([5], (deserializer s')\<lparr>queue := []\<rparr>)"
proof -
  define s where "s =
    \<lparr>deserializer = \<lparr>chunk_size = 2, number_of_chunks = 3, queue = [[3, 4], [5 :: byte]]\<rparr>,
     pushing = [], end_of_input = False,
     pushed = [[1, 2, 3, 4, 5]], enqueued = [[1, 2], [3, 4], [5]], pulled = [[1, 2]]\<rparr>"
  define s' where "s' =
    \<lparr>deserializer = \<lparr>chunk_size = 2, number_of_chunks = 3, queue = [[5 :: byte]]\<rparr>,
     pushing = [], end_of_input = False,
     pushed = [[1, 2, 3, 4, 5]], enqueued = [[1, 2], [3, 4], [5]], pulled = [[1, 2], [3, 4]]\<rparr>"
  have r: "run (start 2 3) [CallPush [1, 2, 3, 4, 5], Enqueue, Enqueue, CallPull, Enqueue] = Some s"
    by (simp add: s_def pieces.simps start_def new_PushDeserializer_def Push_def
        Push_enqueue_def Put_def Pull_def Get_def end_of_stream_def)
  have p: "Pull s = Some ([3, 4], s')"
    by (simp add: s_def s'_def Pull_def Get_def end_of_stream_def)
  have pu: "Put (deserializer s') [6] = Some ((deserializer s')\<lparr>queue := [[5], [6]]\<rparr>)"
    by (simp add: s'_def Put_def)
  have ge: "Get (deserializer s') = Some ([5], (deserializer s')\<lparr>queue := []\<rparr>)"
    by (simp add: s'_def Get_def)
  have v: "enqueued s = [[1, 2], [3, 4], [5]]" "pulled s = [[1, 2]]"
    by (simp_all add: s_def)
  note t = Pull_in_order
    [of 2 3 "[CallPush [1, 2, 3, 4, 5], Enqueue, Enqueue, CallPull, Enqueue]" s
      "deserializer s'" "[3, 4]" "deserializer s'" s']
  have 1: "pulled s @ queue (deserializer s) = enqueued s"
    using t r by blast
  have 2: "queue (deserializer s) = [3, 4] # queue (deserializer s')"
    and 3: "pulled s' = pulled s @ [[3, 4]]"
    using t p by blast+
  have 4: "queue (deserializer s') = [5] # queue ((deserializer s')\<lparr>queue := []\<rparr>)"
    using Pull_in_order [of 2 3 "[]" s "deserializer s'" "[5]"
        "(deserializer s')\<lparr>queue := []\<rparr>" s'] ge
    by blast
  have 5: "queue ((deserializer s')\<lparr>queue := [[5], [6]]\<rparr>) = queue (deserializer s') @ [[6]]"
    using Pull_in_order [of 2 3 "[]" s "deserializer s'" "[6]"
        "(deserializer s')\<lparr>queue := [[5], [6]]\<rparr>" s'] pu
    by blast
  show ?thesis
    using r p v 1 2 3 4 5 pu ge by (intro exI [of _ s] exI [of _ s']) (simp del: run.simps)
qed

text \<open>
  Claim C5.  A \<^verbatim>\<open>Push\<close> of zero-length bytes sets out to enqueue one chunk of size 0 and
  ends the input.  \<^verbatim>\<open>Pull\<close> returns a chunk of size 0 only after that, and is not called
  again.  Once the input has ended, in every reachable state: any call of \<^verbatim>\<open>Push\<close>
  fails; some schedule leads to \<^verbatim>\<open>Pull\<close> returning the chunk of size 0; every schedule
  has at most \<open>remaining\<close> steps, and where neither thread can take a step any more,
  \<^verbatim>\<open>Pull\<close> has returned the chunk of size 0.
\<close>

theorem end_of_input_sentinel:
  "(\<not> end_of_input s0 \<longrightarrow>
      (\<exists>s1. Push s0 [] = Inr s1 \<and> pushing s1 = [[]] \<and> end_of_input s1)) \<and>
   (run (start cs n) as = Some s \<and> end_of_stream s \<longrightarrow> end_of_input s \<and> Pull s = None) \<and>
   (run (start cs n) as = Some s \<and> end_of_input s \<and> 0 < n \<longrightarrow>
      (\<forall>bytes. Push s bytes = Inl PushAfterEndOfInput) \<and>
      (\<exists>as' s'. run s as' = Some s' \<and> end_of_stream s') \<and>
      (\<forall>as' s'. run s as' = Some s' \<longrightarrow>
         length as' \<le> remaining s \<and>
         (\<forall>bytes. Push s' bytes = Inl PushAfterEndOfInput) \<and>
         (quiescent s' \<longrightarrow> end_of_stream s')))"
proof (intro conjI impI allI)
  assume "\<not> end_of_input s0"
  then show "\<exists>s1. Push s0 [] = Inr s1 \<and> pushing s1 = [[]] \<and> end_of_input s1"
    by (simp add: Push_def pieces_Nil)
next
  assume a: "run (start cs n) as = Some s \<and> end_of_stream s"
  then have "sentinel_last n s"
    using run_sentinel_last by blast
  with a show "end_of_input s"
    by (blast intro: end_of_stream_end_of_input)
  from a show "Pull s = None"
    by (simp add: Pull_def)
next
  assume a: "run (start cs n) as = Some s \<and> end_of_input s \<and> 0 < n"
  then have inv: "sentinel_last n s" and e: "end_of_input s" and n: "0 < n"
    using run_sentinel_last by blast+
  show "Push s bytes = Inl PushAfterEndOfInput" for bytes
    using e by (simp add: Push_def)
  show "\<exists>as' s'. run s as' = Some s' \<and> end_of_stream s'"
    using eventually_end_of_stream [OF n inv e] .
  {
    fix as' s'
    assume r: "run s as' = Some s'"
    from run_after_end_of_input [OF e r]
    have e': "end_of_input s'" and l: "length as' + remaining s' \<le> remaining s"
      by simp_all
    from l show "length as' \<le> remaining s"
      by simp
    show "Push s' bytes = Inl PushAfterEndOfInput" for bytes
      using e' by (simp add: Push_def)
    have "sentinel_last n s'"
      using r inv by (rule run_invariant) (rule sentinel_last_step)
    then show "quiescent s' \<Longrightarrow> end_of_stream s'"
      using n e' by (rule quiescent_end_of_stream)
  }
qed

theorem end_of_input_sentinel_witness:
  "\<exists>s s'. run (start 4 2) [CallPush [5], Enqueue, CallPush []] = Some s \<and>
     end_of_input s \<and> pushing s = [[]] \<and>
     Push s [6] = Inl PushAfterEndOfInput \<and>
     run s [CallPull, Enqueue, CallPull] = Some s' \<and>
     pulled s' = [[5], []] \<and> end_of_stream s' \<and> quiescent s' \<and> Pull s' = None \<and>
     Push s' [6] = Inl PushAfterEndOfInput \<and>
     length [CallPull, Enqueue, CallPull] \<le> remaining s"
proof -
  define s0 where "s0 =
    \<lparr>deserializer = \<lparr>chunk_size = 4, number_of_chunks = 2, queue = [[5 :: byte]]\<rparr>,
     pushing = [], end_of_input = False, pushed = [[5]], enqueued = [[5]], pulled = []\<rparr>"
  define s where "s =
    \<lparr>deserializer = \<lparr>chunk_size = 4, number_of_chunks = 2, queue = [[5 :: byte]]\<rparr>,
     pushing = [[]], end_of_input = True, pushed = [[5], []], enqueued = [[5]], pulled = []\<rparr>"
  define s' where "s' =
    \<lparr>deserializer = \<lparr>chunk_size = 4, number_of_chunks = 2, queue = []\<rparr>,
     pushing = [], end_of_input = True, pushed = [[5], []], enqueued = [[5], []],
     pulled = [[5 :: byte], []]\<rparr>"
  have r: "run (start 4 2) [CallPush [5], Enqueue, CallPush []] = Some s"
    by (simp add: s_def pieces.simps start_def new_PushDeserializer_def Push_def
        Push_enqueue_def Put_def)
  have r': "run s [CallPull, Enqueue, CallPull] = Some s'"
    by (simp add: s_def s'_def Push_enqueue_def Put_def Pull_def Get_def end_of_stream_def)
  have v: "end_of_input s" "pushing s = [[]]" "pulled s' = [[5], []]" "quiescent s'"
    "\<not> end_of_input s0" "Push s0 [] = Inr s"
    by (simp_all add: s_def s'_def s0_def quiescent_def Push_enqueue_def Pull_def
        end_of_stream_def Push_def pieces.simps)
  have z: "(0 :: nat) < 2"
    by simp
  note t = end_of_input_sentinel [of s0 4 2 "[CallPush [5], Enqueue, CallPush []]" s]
  have 1: "\<forall>bytes. Push s bytes = Inl PushAfterEndOfInput"
    and 2: "\<forall>as' s'. run s as' = Some s' \<longrightarrow>
         length as' \<le> remaining s \<and>
         (\<forall>bytes. Push s' bytes = Inl PushAfterEndOfInput) \<and>
         (quiescent s' \<longrightarrow> end_of_stream s')"
    using t r v(1) z by blast+
  from 2 r' v(4) have 3: "length [CallPull, Enqueue, CallPull] \<le> remaining s"
    "Push s' [6] = Inl PushAfterEndOfInput" "end_of_stream s'"
    by blast+
  have "run (start 4 2) ([CallPush [5], Enqueue, CallPush []] @ [CallPull, Enqueue, CallPull]) =
      Some s'"
    by (simp only: run_append r r' option.case)
  with 3(3) have 4: "Pull s' = None"
    using end_of_input_sentinel [of s0 4 2
        "[CallPush [5], Enqueue, CallPush []] @ [CallPull, Enqueue, CallPull]" s']
    by blast
  show ?thesis
    using r r' v 1 3 4 by (intro exI [of _ s] exI [of _ s']) (simp del: run.simps)
qed

end
